theory Spec2Isabelle
  imports Complex_Main
begin

section \<open>The animate-by directive: an enter/leave animation scheduler\<close>

text \<open>
  A shallow embedding of \<^verbatim>\<open>src/animate-by.directive.ts\<close>. The directive keeps a
  stack of instances, one per value it was given, and advances the \<^emph>\<open>existence\<close> of each
  on every animation frame. The embedding follows the methods of the class one by one;
  the browser (the frame queue of \<^verbatim>\<open>window\<close>) and Angular (the view container, the
  life cycle) are modelled next to it as the environment.
\<close>

subsection \<open>JavaScript numbers\<close>

text \<open>
  A JavaScript number is an IEEE double. The model keeps the special values
  (\<open>Infinity\<close>, \<open>-Infinity\<close>, \<open>NaN\<close>), which decide what a division by a duration of
  zero gives, and takes the finite values as real numbers: the operations of this
  subsection are exact, and \<open>-0\<close> is not told from \<open>0\<close>. The rounding of every
  result to a double comes on top of them in the subsection on double arithmetic below,
  for the one property that depends on it: that a formula gives back exactly the number
  it was built from.
\<close>

datatype number = Fin real | Infinity | NegInfinity | NaN

text \<open>\<^verbatim>\<open>a - b\<close>\<close>

fun js_sub :: "number \<Rightarrow> number \<Rightarrow> number" where
  "js_sub NaN b = NaN"
| "js_sub a NaN = NaN"
| "js_sub (Fin a) (Fin b) = Fin (a - b)"
| "js_sub (Fin a) Infinity = NegInfinity"
| "js_sub (Fin a) NegInfinity = Infinity"
| "js_sub Infinity Infinity = NaN"
| "js_sub Infinity b = Infinity"
| "js_sub NegInfinity NegInfinity = NaN"
| "js_sub NegInfinity b = NegInfinity"

text \<open>\<^verbatim>\<open>a * b\<close>\<close>

fun js_mul :: "number \<Rightarrow> number \<Rightarrow> number" where
  "js_mul NaN b = NaN"
| "js_mul a NaN = NaN"
| "js_mul (Fin a) (Fin b) = Fin (a * b)"
| "js_mul (Fin a) Infinity = (if a = 0 then NaN else if 0 < a then Infinity else NegInfinity)"
| "js_mul (Fin a) NegInfinity = (if a = 0 then NaN else if 0 < a then NegInfinity else Infinity)"
| "js_mul Infinity (Fin b) = (if b = 0 then NaN else if 0 < b then Infinity else NegInfinity)"
| "js_mul NegInfinity (Fin b) = (if b = 0 then NaN else if 0 < b then NegInfinity else Infinity)"
| "js_mul Infinity Infinity = Infinity"
| "js_mul Infinity NegInfinity = NegInfinity"
| "js_mul NegInfinity Infinity = NegInfinity"
| "js_mul NegInfinity NegInfinity = Infinity"

text \<open>\<^verbatim>\<open>a / b\<close>: a finite number over zero is infinite, and zero over zero is \<open>NaN\<close>.\<close>

fun js_div :: "number \<Rightarrow> number \<Rightarrow> number" where
  "js_div NaN b = NaN"
| "js_div a NaN = NaN"
| "js_div (Fin a) (Fin b) =
     (if b = 0 then (if a = 0 then NaN else if 0 < a then Infinity else NegInfinity)
      else Fin (a / b))"
| "js_div (Fin a) b = Fin 0"
| "js_div Infinity (Fin b) = (if 0 \<le> b then Infinity else NegInfinity)"
| "js_div NegInfinity (Fin b) = (if 0 \<le> b then NegInfinity else Infinity)"
| "js_div a b = NaN"

text \<open>\<^verbatim>\<open>a <= b\<close> and \<^verbatim>\<open>a >= b\<close>: false as soon as one side is \<open>NaN\<close>.\<close>

fun js_le :: "number \<Rightarrow> number \<Rightarrow> bool" where
  "js_le NaN b = False"
| "js_le a NaN = False"
| "js_le (Fin a) (Fin b) = (a \<le> b)"
| "js_le NegInfinity b = True"
| "js_le a Infinity = True"
| "js_le a b = False"

definition js_ge :: "number \<Rightarrow> number \<Rightarrow> bool" where
  "js_ge a b = js_le b a"

text \<open>\<^verbatim>\<open>Math.min(a, b)\<close>: \<open>NaN\<close> as soon as one argument is.\<close>

fun js_min :: "number \<Rightarrow> number \<Rightarrow> number" where
  "js_min NaN b = NaN"
| "js_min a NaN = NaN"
| "js_min a b = (if js_le a b then a else b)"

subsection \<open>The data of the directive\<close>

text \<open>The four values of \<^verbatim>\<open>AnimateByContext.state\<close>.\<close>

datatype anim_state = Entering | Leaving | Here | Reverse

text \<open>\<^verbatim>\<open>interface AnimateByTimings\<close> and \<^verbatim>\<open>theDefaultAnimateByTimings\<close>.\<close>

record AnimateByTimings =
  enter :: number
  leave :: number

definition defaultAnimateByTimings :: AnimateByTimings where
  "defaultAnimateByTimings = \<lparr>enter = Fin 1000, leave = Fin 1000\<rparr>"

text \<open>
  \<^verbatim>\<open>interface AnimateByOptions\<close>: both members are optional. An absent \<open>symmetric\<close>
  is falsy, so it is \<open>False\<close>; absent timings are \<open>None\<close>. The input
  \<open>animateByOptions\<close> itself is always such an object, as its type says.
\<close>

record AnimateByOptions =
  symmetric :: bool
  opt_timings :: "AnimateByTimings option"

text \<open>
  \<^verbatim>\<open>class AnimateByContext\<close>. The field \<open>implicit\<close> is \<^verbatim>\<open>$implicit\<close>; values of the
  type \<open>'a\<close> stand for the identities of the objects given to the directive, so that
  \<^verbatim>\<open>!==\<close> on them is disequality. \<open>startTime = None\<close> is \<^verbatim>\<open>undefined\<close>.
\<close>

record 'a AnimateByContext =
  implicit :: 'a
  state :: anim_state
  existence :: number
  timings :: AnimateByTimings
  startTime :: "number option"

text \<open>The constructor: the timings are copied, the existence follows the state.\<close>

definition new_AnimateByContext :: "'a \<Rightarrow> anim_state \<Rightarrow> AnimateByTimings \<Rightarrow> 'a AnimateByContext" where
  "new_AnimateByContext v st t =
     \<lparr>implicit = v, state = st, existence = (if st = Here then Fin 1 else Fin 0),
      timings = t, startTime = None\<rparr>"

text \<open>
  A stack entry \<^verbatim>\<open>{context, view}\<close> is an object: the code compares entries by identity
  (\<^verbatim>\<open>stackEntry === this.current\<close>, \<^verbatim>\<open>indexOf\<close>) and mutates the context through
  references shared by \<open>stack\<close> and \<open>current\<close>. So an entry is a reference, the store
  \<open>heap\<close> maps a reference to the context of the entry, and the embedded view made for
  an entry is named by the same reference.

  The directive's own fields are \<open>stack\<close>, \<open>current\<close>, \<open>window\<close> (whether it holds a
  \<^verbatim>\<open>Window\<close>), \<open>animId\<close>, \<open>inited\<close> and \<open>animateByOptions\<close>. The rest is the
  environment: the store with its allocation counter \<open>next_ref\<close>; the frame queue of
  the window (\<open>pending\<close>, the handles of the callbacks requested and not yet run or
  cancelled, and the counter \<open>next_handle\<close> they are drawn from); the view container
  \<open>views\<close>; and \<open>marks\<close>, the number of calls of \<^verbatim>\<open>cd.markForCheck()\<close>.
\<close>

type_synonym ref = nat

record 'a directive =
  stack :: "ref list"
  current :: "ref option"
  window :: bool
  animId :: "nat option"
  inited :: bool
  animateByOptions :: AnimateByOptions
  heap :: "ref \<Rightarrow> 'a AnimateByContext"
  next_ref :: ref
  pending :: "nat list"
  next_handle :: nat
  views :: "ref list"
  marks :: nat

text \<open>
  The state after the constructor and the field initialisers. No cell of the store is
  allocated yet, so what it holds is left open.
\<close>

definition init :: "'a directive" where
  "init = \<lparr>stack = [], current = None, window = False, animId = None, inited = False,
     animateByOptions = \<lparr>symmetric = False, opt_timings = Some defaultAnimateByTimings\<rparr>,
     heap = (\<lambda>r. undefined), next_ref = 0, pending = [], next_handle = 0,
     views = [], marks = 0\<rparr>"

subsection \<open>The environment: frame queue and view container\<close>

text \<open>
  \<^verbatim>\<open>window.requestAnimationFrame(cb)\<close> increments the window's callback identifier,
  queues the callback under it and returns it; the handle is never zero. The directive
  only ever passes \<^verbatim>\<open>doAnimationFrame\<close>, so the queue holds handles.
  \<^verbatim>\<open>window.cancelAnimationFrame(h)\<close> takes the handle out of the queue.
\<close>

definition requestAnimationFrame :: "'a directive \<Rightarrow> nat \<times> 'a directive" where
  "requestAnimationFrame s =
     (Suc (next_handle s),
      s\<lparr>next_handle := Suc (next_handle s), pending := pending s @ [Suc (next_handle s)]\<rparr>)"

definition cancelAnimationFrame :: "nat \<Rightarrow> 'a directive \<Rightarrow> 'a directive" where
  "cancelAnimationFrame h s = s\<lparr>pending := filter (\<lambda>k. k \<noteq> h) (pending s)\<rparr>"

text \<open>
  \<^verbatim>\<open>Array.prototype.indexOf\<close>, with \<open>None\<close> for \<open>-1\<close>, and the removal of one element
  at that index as \<^verbatim>\<open>splice(index, 1)\<close> and \<^verbatim>\<open>viewContainer.remove(index)\<close> do it.
  \<^verbatim>\<open>splice(-1, 1)\<close> removes the last element; the view container is taken to do the
  same, as it does when it is given no index. No execution gets there: the entries the
  directive removes are on its stack (\<open>current_indexed\<close>, \<open>doAnimationFrame_stack\<close>).
\<close>

fun indexOf :: "ref list \<Rightarrow> ref \<Rightarrow> nat option" where
  "indexOf [] r = None"
| "indexOf (x # xs) r = (if x = r then Some 0 else map_option Suc (indexOf xs r))"

definition remove_at :: "nat option \<Rightarrow> 'b list \<Rightarrow> 'b list" where
  "remove_at index xs = (case index of None \<Rightarrow> butlast xs | Some i \<Rightarrow> take i xs @ drop (Suc i) xs)"

subsection \<open>The methods of the directive\<close>

text \<open>
  \<^verbatim>\<open>ngOnInit\<close>. The argument is what the element reference gives: \<open>None\<close> when there
  is no native element or no owner document (\<open>window\<close> is not assigned), otherwise
  whether \<^verbatim>\<open>doc.parentWindow || doc.defaultView\<close> is a window. The warning about the
  deprecated \<open>timings\<close> attribute only writes to the console and is left out.
\<close>

definition ngOnInit :: "bool option \<Rightarrow> 'a directive \<Rightarrow> 'a directive" where
  "ngOnInit w s = (let s1 = s\<lparr>inited := True\<rparr> in
     case w of None \<Rightarrow> s1 | Some b \<Rightarrow> s1\<lparr>window := b\<rparr>)"

text \<open>
  \<^verbatim>\<open>ngOnDestroy\<close>. The test \<^verbatim>\<open>if (this.animId)\<close> is a truthiness test, false for
  \<^verbatim>\<open>undefined\<close> and for 0. Calling \<^verbatim>\<open>cancelAnimationFrame\<close> on an undefined window
  throws a \<open>TypeError\<close>: that is the result \<open>None\<close>.
\<close>

definition ngOnDestroy :: "'a directive \<Rightarrow> 'a directive option" where
  "ngOnDestroy s =
     (case animId s of
        None \<Rightarrow> Some s
      | Some h \<Rightarrow>
          if h = 0 then Some s
          else if window s then Some (cancelAnimationFrame h s)
          else None)"

definition scheduleAnimationFrame :: "'a directive \<Rightarrow> 'a directive" where
  "scheduleAnimationFrame s =
     (if animId s = None \<and> window s
      then (let (h, s1) = requestAnimationFrame s in s1\<lparr>animId := Some h\<rparr>)
      else s)"

definition removeStackEntry :: "ref \<Rightarrow> 'a directive \<Rightarrow> 'a directive" where
  "removeStackEntry stackEntry s =
     (let index = indexOf (stack s) stackEntry in
      s\<lparr>views := remove_at index (views s), stack := remove_at index (stack s)\<rparr>)"

text \<open>
  \<^verbatim>\<open>newCurrent\<close>. The new entry is allocated at \<open>next_ref\<close>; its view is appended to
  the view container and the entry is pushed on the stack.
\<close>

definition newCurrent :: "'a \<Rightarrow> 'a directive \<Rightarrow> 'a directive" where
  "newCurrent v s =
     (let instant = (\<not> window s \<or> \<not> inited s);
          ctx = new_AnimateByContext v (if instant then Here else Entering)
                  (case opt_timings (animateByOptions s) of
                     Some t \<Rightarrow> t | None \<Rightarrow> defaultAnimateByTimings);
          r = next_ref s;
          s1 = s\<lparr>heap := (heap s)(r := ctx), next_ref := Suc r, views := views s @ [r]\<rparr>;
          s2 = s1\<lparr>current := Some r\<rparr>;
          s3 = s2\<lparr>stack := stack s2 @ [r]\<rparr>
      in if \<not> instant then scheduleAnimationFrame s3 else s3)"

text \<open>
  \<^verbatim>\<open>removeCurrent\<close>. It is private and its only call stands under
  \<^verbatim>\<open>if (this.current)\<close>; the argument \<open>cur\<close> is that entry, \<^verbatim>\<open>this.current\<close>.
\<close>

definition removeCurrent :: "ref \<Rightarrow> 'a directive \<Rightarrow> 'a directive" where
  "removeCurrent cur s =
     (let s1 =
        (if window s then
           (if state (heap s cur) = Here then
              scheduleAnimationFrame (s\<lparr>heap := (heap s)(cur := (heap s cur)\<lparr>state := Leaving\<rparr>)\<rparr>)
            else if symmetric (animateByOptions s) \<and> state (heap s cur) = Entering then
              scheduleAnimationFrame (s\<lparr>heap := (heap s)(cur := (heap s cur)\<lparr>state := Reverse\<rparr>)\<rparr>)
            else s)
         else removeStackEntry cur s)
      in s1\<lparr>current := None\<rparr>)"

text \<open>The setter \<^verbatim>\<open>set animateBy(v)\<close>; \<open>None\<close> is \<^verbatim>\<open>undefined\<close>.\<close>

definition animateBy :: "'a option \<Rightarrow> 'a directive \<Rightarrow> 'a directive" where
  "animateBy v s =
     (let co = (case current s of Some cur \<Rightarrow> Some (implicit (heap s cur)) | None \<Rightarrow> None) in
      if co \<noteq> v then
        (let s1 = (case current s of Some cur \<Rightarrow> removeCurrent cur s | None \<Rightarrow> s) in
         case v of Some x \<Rightarrow> newCurrent x s1 | None \<Rightarrow> s1)
      else s)"

text \<open>\<^verbatim>\<open>reverseAnimation(context, clock)\<close>\<close>

definition reverseAnimation :: "'a AnimateByContext \<Rightarrow> number \<Rightarrow> 'a AnimateByContext" where
  "reverseAnimation ctx clock =
     ctx\<lparr>startTime := Some (js_sub clock (js_mul (leave (timings ctx)) (js_sub (Fin 1) (existence ctx)))),
         state := Leaving\<rparr>"

text \<open>
  The body of the loop of \<^verbatim>\<open>doAnimationFrame\<close> on one entry. \<open>isCurrent\<close> is
  \<^verbatim>\<open>stackEntry === this.current\<close>. The result is the context after the body, whether
  the entry was pushed on \<open>toRemove\<close>, and whether \<open>scheduleAnother\<close> was set.
  \<^verbatim>\<open>clock - undefined\<close> is \<open>NaN\<close>.
\<close>

definition animateEntry ::
  "number \<Rightarrow> bool \<Rightarrow> 'a AnimateByContext \<Rightarrow> 'a AnimateByContext \<times> bool \<times> bool" where
  "animateEntry clock isCurrent ctx =
     (let c1 = (if state ctx \<noteq> Here \<and> startTime ctx = None
                then ctx\<lparr>startTime := Some clock\<rparr> else ctx);
          c2 = (if state c1 = Reverse then reverseAnimation c1 clock else c1);
          localClock = (case startTime c2 of None \<Rightarrow> NaN | Some t \<Rightarrow> js_sub clock t)
      in
        if state c2 = Entering then
          (let c3 = c2\<lparr>existence := js_min (Fin 1) (js_div localClock (enter (timings c2)))\<rparr> in
           if js_ge (existence c3) (Fin 1) then
             (if isCurrent then (c3\<lparr>state := Here, startTime := None\<rparr>, False, False)
              else (c3\<lparr>state := Leaving, startTime := None\<rparr>, False, True))
           else (c3, False, True))
        else if state c2 = Leaving then
          (let c3 = c2\<lparr>existence :=
                  js_sub (Fin 1) (js_min (Fin 1) (js_div localClock (leave (timings c2))))\<rparr> in
           if js_le (existence c3) (Fin 0) then (c3, True, False)
           else (c3, False, True))
        else (c2, False, False))"

text \<open>
  The loop \<^verbatim>\<open>for (let stackEntry of this.stack)\<close>: it carries the store, \<open>toRemove\<close>
  and \<open>scheduleAnother\<close>.
\<close>

fun animateEntries ::
  "number \<Rightarrow> ref option \<Rightarrow> ref list \<Rightarrow> (ref \<Rightarrow> 'a AnimateByContext) \<times> ref list \<times> bool
     \<Rightarrow> (ref \<Rightarrow> 'a AnimateByContext) \<times> ref list \<times> bool" where
  "animateEntries clock cur [] acc = acc"
| "animateEntries clock cur (r # rs) (h, toRemove, scheduleAnother) =
     (case animateEntry clock (cur = Some r) (h r) of
        (c, del, again) \<Rightarrow>
          animateEntries clock cur rs
            (h(r := c), (if del then toRemove @ [r] else toRemove), (scheduleAnother \<or> again)))"

definition doAnimationFrame :: "number \<Rightarrow> 'a directive \<Rightarrow> 'a directive" where
  "doAnimationFrame clock s =
     (let s1 = s\<lparr>animId := None\<rparr> in
      case animateEntries clock (current s1) (stack s1) (heap s1, [], False) of
        (h, toRemove, scheduleAnother) \<Rightarrow>
          (let s2 = fold removeStackEntry toRemove (s1\<lparr>heap := h\<rparr>);
               s3 = s2\<lparr>marks := Suc (marks s2)\<rparr>
           in if scheduleAnother then scheduleAnimationFrame s3 else s3))"

subsection \<open>Executions\<close>

text \<open>
  What can happen to a directive. Angular sets the two inputs and calls the life-cycle
  hooks; it calls \<^verbatim>\<open>ngOnInit\<close> once, so a second \<open>NgOnInit\<close> is not delivered. The
  browser, at a frame with time stamp \<open>clock\<close>, empties the frame queue and runs each
  callback that was in it.
\<close>

datatype 'a event =
    NgOnInit "bool option"
  | SetAnimateBy "'a option"
  | SetOptions AnimateByOptions
  | Frame real
  | NgOnDestroy

definition frame :: "real \<Rightarrow> 'a directive \<Rightarrow> 'a directive" where
  "frame clock s = fold (\<lambda>h. doAnimationFrame (Fin clock)) (pending s) (s\<lparr>pending := []\<rparr>)"

fun step :: "'a event \<Rightarrow> 'a directive \<Rightarrow> 'a directive" where
  "step (NgOnInit w) s = (if inited s then s else ngOnInit w s)"
| "step (SetAnimateBy v) s = animateBy v s"
| "step (SetOptions opts) s = s\<lparr>animateByOptions := opts\<rparr>"
| "step (Frame clock) s = frame clock s"
| "step NgOnDestroy s = (case ngOnDestroy s of Some s' \<Rightarrow> s' | None \<Rightarrow> s)"

definition run :: "'a event list \<Rightarrow> 'a directive" where
  "run evs = fold step evs init"

subsection \<open>Invariants\<close>

text \<open>
  What holds of the directive in every execution. \<open>stack_ok\<close>: the entries of the
  stack are distinct and allocated, and the view container holds the view of each entry
  at the index of the entry. \<open>here_ok\<close>: an entry in state \<open>Here\<close> is the current
  one, has no start time and has existence 1. \<open>current_ok\<close>: the current entry is on
  the stack, entering or here. \<open>window_ok\<close>: an entry that is not \<open>Here\<close> was made
  with a window; a window is only held after \<^verbatim>\<open>ngOnInit\<close>; without a window nothing
  is scheduled and the stack holds the current entry only. \<open>registered\<close>: the frame
  queue holds at most the callback whose handle is \<open>animId\<close>, which is never 0.
\<close>

definition stack_ok :: "'a directive \<Rightarrow> bool" where
  "stack_ok s \<longleftrightarrow>
     distinct (stack s) \<and> views s = stack s \<and> (\<forall>r\<in>set (stack s). r < next_ref s)"

definition here_ok :: "'a directive \<Rightarrow> bool" where
  "here_ok s \<longleftrightarrow>
     (\<forall>r\<in>set (stack s). state (heap s r) = Here \<longrightarrow>
        current s = Some r \<and> startTime (heap s r) = None \<and> existence (heap s r) = Fin 1)"

definition current_ok :: "'a directive \<Rightarrow> bool" where
  "current_ok s \<longleftrightarrow>
     (\<forall>r. current s = Some r \<longrightarrow>
        r \<in> set (stack s) \<and> (state (heap s r) = Here \<or> state (heap s r) = Entering))"

definition window_ok :: "'a directive \<Rightarrow> bool" where
  "window_ok s \<longleftrightarrow>
     (\<forall>r\<in>set (stack s). state (heap s r) \<noteq> Here \<longrightarrow> window s) \<and>
     (window s \<longrightarrow> inited s) \<and>
     (\<not> window s \<longrightarrow> animId s = None \<and> stack s = (case current s of None \<Rightarrow> [] | Some r \<Rightarrow> [r]))"

definition consistent :: "'a directive \<Rightarrow> bool" where
  "consistent s \<longleftrightarrow> stack_ok s \<and> here_ok s \<and> current_ok s \<and> window_ok s"

definition registered :: "'a directive \<Rightarrow> bool" where
  "registered s \<longleftrightarrow>
     (pending s = [] \<or> map Some (pending s) = [animId s]) \<and> animId s \<noteq> Some 0"

text \<open>
  \<open>superseded r\<close>: the entry \<open>r\<close> was made earlier, is not the current one, and is
  either entering and on the stack, or leaving.
\<close>

definition superseded :: "ref \<Rightarrow> 'a directive \<Rightarrow> bool" where
  "superseded r s \<longleftrightarrow>
     r < next_ref s \<and> current s \<noteq> Some r \<and>
     ((state (heap s r) = Entering \<and> r \<in> set (stack s)) \<or> state (heap s r) = Leaving)"

subsection \<open>Executions with positive durations and a monotone clock\<close>

text \<open>
  \<open>positive_timings\<close>: both durations are finite numbers above zero.
  \<open>well_timed prev evs\<close>: in the events \<open>evs\<close> every option object given to the
  directive has positive timings (or none, so that the default is taken), and the time
  stamps of the frames never decrease, starting from \<open>prev\<close>, the time stamp of the frame
  before the events, if there was one. \<open>is_Frame\<close> tells the frames from the other
  events.
\<close>

definition positive_timings :: "AnimateByTimings \<Rightarrow> bool" where
  "positive_timings t \<longleftrightarrow>
     (case enter t of Fin a \<Rightarrow> 0 < a | _ \<Rightarrow> False) \<and>
     (case leave t of Fin b \<Rightarrow> 0 < b | _ \<Rightarrow> False)"

definition positive_options :: "AnimateByOptions \<Rightarrow> bool" where
  "positive_options opts \<longleftrightarrow>
     (case opt_timings opts of None \<Rightarrow> True | Some t \<Rightarrow> positive_timings t)"

fun well_timed :: "real option \<Rightarrow> 'a event list \<Rightarrow> bool" where
  "well_timed prev [] = True"
| "well_timed prev (Frame clock # evs) =
     ((case prev of None \<Rightarrow> True | Some l \<Rightarrow> l \<le> clock) \<and> well_timed (Some clock) evs)"
| "well_timed prev (SetOptions opts # evs) = (positive_options opts \<and> well_timed prev evs)"
| "well_timed prev (ev # evs) = well_timed prev evs"

fun is_Frame :: "'a event \<Rightarrow> bool" where
  "is_Frame (Frame clock) = True"
| "is_Frame ev = False"

text \<open>
  The invariants of such executions. \<open>in_time prev ctx\<close>: the timings of the context
  are positive, its existence lies between 0 and 1, and its start time, when it has one,
  is a finite number not after \<open>prev\<close>, the time stamp of the last frame. \<open>timed\<close>:
  this holds of every entry of the stack, and the options are positive.
  \<open>same_progress c c'\<close>: \<open>c'\<close> has the existence, start time and timings of \<open>c\<close>,
  and is leaving if \<open>c\<close> is; this is what the events between two frames keep of an
  entry.
\<close>

definition started_by :: "real option \<Rightarrow> number option \<Rightarrow> bool" where
  "started_by prev st \<longleftrightarrow>
     (case st of
        None \<Rightarrow> True
      | Some t \<Rightarrow> (case t of
            Fin x \<Rightarrow> (case prev of None \<Rightarrow> False | Some l \<Rightarrow> x \<le> l)
          | _ \<Rightarrow> False))"

definition in_time :: "real option \<Rightarrow> 'a AnimateByContext \<Rightarrow> bool" where
  "in_time prev ctx \<longleftrightarrow>
     positive_timings (timings ctx) \<and>
     js_le (Fin 0) (existence ctx) \<and> js_le (existence ctx) (Fin 1) \<and>
     started_by prev (startTime ctx)"

definition timed :: "real option \<Rightarrow> 'a directive \<Rightarrow> bool" where
  "timed prev s \<longleftrightarrow>
     positive_options (animateByOptions s) \<and> (\<forall>r\<in>set (stack s). in_time prev (heap s r))"

definition same_progress :: "'a AnimateByContext \<Rightarrow> 'a AnimateByContext \<Rightarrow> bool" where
  "same_progress c c' \<longleftrightarrow>
     existence c' = existence c \<and> startTime c' = startTime c \<and> timings c' = timings c \<and>
     (state c = Leaving \<longrightarrow> state c' = Leaving)"

subsection \<open>Double arithmetic\<close>

text \<open>
  The engine computes every \<^verbatim>\<open>-\<close>, \<^verbatim>\<open>*\<close> and \<^verbatim>\<open>/\<close> on doubles: the result is the
  double nearest to the exact result (IEEE 754 binary64, round to nearest, ties to even).
  \<open>exponent x\<close> is the binary exponent of \<open>x\<close>, between -1022 (where the subnormal
  numbers lie) and 1023; it is found by halving or doubling \<open>\<bar>x\<bar>\<close>. A double with this
  exponent is a multiple of \<open>2 powi (exponent x - 52)\<close>; \<open>nearest_even\<close> picks the
  nearest multiple, the even one of two that are equally near. A result of magnitude
  \<open>2 ^ 1024\<close> or more is infinite. \<^verbatim>\<open>Math.min\<close> and the comparisons do not round.
\<close>

primrec halvings :: "nat \<Rightarrow> real \<Rightarrow> int" where
  "halvings 0 a = 0"
| "halvings (Suc n) a = (if a < 2 then 0 else 1 + halvings n (a / 2))"

primrec doublings :: "nat \<Rightarrow> real \<Rightarrow> int" where
  "doublings 0 a = 0"
| "doublings (Suc n) a = (if 1 \<le> a then 0 else 1 + doublings n (2 * a))"

definition exponent :: "real \<Rightarrow> int" where
  "exponent x = (if 1 \<le> \<bar>x\<bar> then halvings 1023 \<bar>x\<bar> else - doublings 1022 \<bar>x\<bar>)"

definition nearest_even :: "real \<Rightarrow> int" where
  "nearest_even y =
     (let f = \<lfloor>y\<rfloor> in
      if y - of_int f < 1 / 2 then f
      else if 1 / 2 < y - of_int f then f + 1
      else if even f then f else f + 1)"

definition round_double :: "real \<Rightarrow> number" where
  "round_double x =
     (let u = 2 powi (exponent x - 52);
          y = of_int (nearest_even (x / u)) * u
      in if 2 ^ 1024 \<le> y then Infinity else if y \<le> - (2 ^ 1024) then NegInfinity else Fin y)"

fun dbl :: "number \<Rightarrow> number" where
  "dbl (Fin x) = round_double x"
| "dbl a = a"

text \<open>\<^verbatim>\<open>a - b\<close>, \<^verbatim>\<open>a * b\<close> and \<^verbatim>\<open>a / b\<close> on doubles.\<close>

definition dbl_sub :: "number \<Rightarrow> number \<Rightarrow> number" where
  "dbl_sub a b = dbl (js_sub a b)"

definition dbl_mul :: "number \<Rightarrow> number \<Rightarrow> number" where
  "dbl_mul a b = dbl (js_mul a b)"

definition dbl_div :: "number \<Rightarrow> number \<Rightarrow> number" where
  "dbl_div a b = dbl (js_div a b)"

text \<open>
  \<^verbatim>\<open>reverseAnimation\<close> and the body of the loop of \<^verbatim>\<open>doAnimationFrame\<close> once more,
  with the operations on doubles in the place of the exact ones.
\<close>

definition reverseAnimation_dbl :: "'a AnimateByContext \<Rightarrow> number \<Rightarrow> 'a AnimateByContext" where
  "reverseAnimation_dbl ctx clock =
     ctx\<lparr>startTime := Some (dbl_sub clock (dbl_mul (leave (timings ctx)) (dbl_sub (Fin 1) (existence ctx)))),
         state := Leaving\<rparr>"

definition animateEntry_dbl ::
  "number \<Rightarrow> bool \<Rightarrow> 'a AnimateByContext \<Rightarrow> 'a AnimateByContext \<times> bool \<times> bool" where
  "animateEntry_dbl clock isCurrent ctx =
     (let c1 = (if state ctx \<noteq> Here \<and> startTime ctx = None
                then ctx\<lparr>startTime := Some clock\<rparr> else ctx);
          c2 = (if state c1 = Reverse then reverseAnimation_dbl c1 clock else c1);
          localClock = (case startTime c2 of None \<Rightarrow> NaN | Some t \<Rightarrow> dbl_sub clock t)
      in
        if state c2 = Entering then
          (let c3 = c2\<lparr>existence := js_min (Fin 1) (dbl_div localClock (enter (timings c2)))\<rparr> in
           if js_ge (existence c3) (Fin 1) then
             (if isCurrent then (c3\<lparr>state := Here, startTime := None\<rparr>, False, False)
              else (c3\<lparr>state := Leaving, startTime := None\<rparr>, False, True))
           else (c3, False, True))
        else if state c2 = Leaving then
          (let c3 = c2\<lparr>existence :=
                  dbl_sub (Fin 1) (js_min (Fin 1) (dbl_div localClock (leave (timings c2))))\<rparr> in
           if js_le (existence c3) (Fin 0) then (c3, True, False)
           else (c3, False, True))
        else (c2, False, False))"

section \<open>Properties\<close>

subsection \<open>What each method leaves alone\<close>

lemma scheduleAnimationFrame_fields [simp]:
  "stack (scheduleAnimationFrame s) = stack s"
  "current (scheduleAnimationFrame s) = current s"
  "window (scheduleAnimationFrame s) = window s"
  "inited (scheduleAnimationFrame s) = inited s"
  "animateByOptions (scheduleAnimationFrame s) = animateByOptions s"
  "heap (scheduleAnimationFrame s) = heap s"
  "next_ref (scheduleAnimationFrame s) = next_ref s"
  "views (scheduleAnimationFrame s) = views s"
  "marks (scheduleAnimationFrame s) = marks s"
  by (simp_all add: scheduleAnimationFrame_def requestAnimationFrame_def)

lemma removeStackEntry_fields [simp]:
  "current (removeStackEntry r s) = current s"
  "window (removeStackEntry r s) = window s"
  "inited (removeStackEntry r s) = inited s"
  "animateByOptions (removeStackEntry r s) = animateByOptions s"
  "heap (removeStackEntry r s) = heap s"
  "next_ref (removeStackEntry r s) = next_ref s"
  "animId (removeStackEntry r s) = animId s"
  "pending (removeStackEntry r s) = pending s"
  "next_handle (removeStackEntry r s) = next_handle s"
  "marks (removeStackEntry r s) = marks s"
  by (simp_all add: removeStackEntry_def Let_def)

lemma fold_removeStackEntry_fields [simp]:
  "current (fold removeStackEntry rm s) = current s"
  "window (fold removeStackEntry rm s) = window s"
  "inited (fold removeStackEntry rm s) = inited s"
  "animateByOptions (fold removeStackEntry rm s) = animateByOptions s"
  "heap (fold removeStackEntry rm s) = heap s"
  "next_ref (fold removeStackEntry rm s) = next_ref s"
  "animId (fold removeStackEntry rm s) = animId s"
  "pending (fold removeStackEntry rm s) = pending s"
  "next_handle (fold removeStackEntry rm s) = next_handle s"
  "marks (fold removeStackEntry rm s) = marks s"
  by (induction rm arbitrary: s; simp)+

subsection \<open>Removing an entry\<close>

lemma indexOf_None: "indexOf xs r = None \<longleftrightarrow> r \<notin> set xs"
  by (induction xs) auto

lemma remove_at_indexOf:
  "r \<in> set xs \<Longrightarrow> remove_at (indexOf xs r) xs = remove1 r xs"
proof (induction xs)
  case Nil
  then show ?case by simp
next
  case (Cons x xs)
  show ?case
  proof (cases "x = r")
    case True
    then show ?thesis by (simp add: remove_at_def)
  next
    case False
    with Cons.prems have "r \<in> set xs" by simp
    then obtain i where i: "indexOf xs r = Some i"
      using indexOf_None [of xs r] by (cases "indexOf xs r") auto
    with Cons.IH [OF \<open>r \<in> set xs\<close>] False show ?thesis
      by (simp add: remove_at_def)
  qed
qed

lemma removeStackEntry_stack:
  "r \<in> set (stack s) \<Longrightarrow> stack (removeStackEntry r s) = remove1 r (stack s)"
  by (simp add: removeStackEntry_def Let_def remove_at_indexOf)

lemma removeStackEntry_views:
  "r \<in> set (stack s) \<Longrightarrow> views s = stack s \<Longrightarrow> views (removeStackEntry r s) = remove1 r (stack s)"
  by (simp add: removeStackEntry_def Let_def remove_at_indexOf)

lemma remove1_filter: "distinct xs \<Longrightarrow> remove1 r xs = filter (\<lambda>x. x \<noteq> r) xs"
  by (simp add: distinct_remove1_removeAll removeAll_filter_not_eq) metis

lemma fold_removeStackEntry_stack:
  "distinct (stack s) \<Longrightarrow> set rm \<subseteq> set (stack s) \<Longrightarrow> distinct rm \<Longrightarrow>
   stack (fold removeStackEntry rm s) = filter (\<lambda>x. x \<notin> set rm) (stack s)"
proof (induction rm arbitrary: s)
  case Nil
  then show ?case by simp
next
  case (Cons r rm)
  let ?s = "removeStackEntry r s"
  have st: "stack ?s = filter (\<lambda>x. x \<noteq> r) (stack s)"
    using Cons.prems by (simp add: removeStackEntry_stack remove1_filter)
  have "stack (fold removeStackEntry rm ?s) = filter (\<lambda>x. x \<notin> set rm) (stack ?s)"
    using Cons.prems by (intro Cons.IH) (auto simp: st)
  then show ?case by (simp add: st conj_commute)
qed

lemma fold_removeStackEntry_views:
  "distinct (stack s) \<Longrightarrow> set rm \<subseteq> set (stack s) \<Longrightarrow> distinct rm \<Longrightarrow> views s = stack s \<Longrightarrow>
   views (fold removeStackEntry rm s) = stack (fold removeStackEntry rm s)"
proof (induction rm arbitrary: s)
  case Nil
  then show ?case by simp
next
  case (Cons r rm)
  let ?s = "removeStackEntry r s"
  have st: "stack ?s = filter (\<lambda>x. x \<noteq> r) (stack s)"
    using Cons.prems by (simp add: removeStackEntry_stack remove1_filter)
  have vw: "views ?s = stack ?s"
    using Cons.prems by (simp add: removeStackEntry_stack removeStackEntry_views)
  have "views (fold removeStackEntry rm ?s) = stack (fold removeStackEntry rm ?s)"
    using Cons.prems vw by (intro Cons.IH) (auto simp: st)
  then show ?case by simp
qed

subsection \<open>The loop over the stack\<close>

lemma animateEntries_heap_other:
  "r \<notin> set rs \<Longrightarrow> fst (animateEntries clock cur rs (h, rm, sa)) r = h r"
  by (induction rs arbitrary: h rm sa) (auto split: prod.splits)

lemma animateEntries_heap:
  "distinct rs \<Longrightarrow> r \<in> set rs \<Longrightarrow>
   fst (animateEntries clock cur rs (h, rm, sa)) r = fst (animateEntry clock (cur = Some r) (h r))"
proof (induction rs arbitrary: h rm sa)
  case Nil
  then show ?case by simp
next
  case (Cons x rs)
  obtain c del again where ae: "animateEntry clock (cur = Some x) (h x) = (c, del, again)"
    by (cases "animateEntry clock (cur = Some x) (h x)") auto
  show ?case
  proof (cases "r = x")
    case True
    with Cons.prems ae show ?thesis by (simp add: animateEntries_heap_other)
  next
    case False
    with Cons.prems have "r \<in> set rs" "distinct rs" by auto
    from Cons.IH [OF this(2) this(1)] False ae show ?thesis by simp
  qed
qed

lemma animateEntries_toRemove:
  "distinct rs \<Longrightarrow>
   fst (snd (animateEntries clock cur rs (h, rm, sa))) =
     rm @ filter (\<lambda>r. fst (snd (animateEntry clock (cur = Some r) (h r)))) rs"
proof (induction rs arbitrary: h rm sa)
  case Nil
  then show ?case by simp
next
  case (Cons x rs)
  obtain c del again where ae: "animateEntry clock (cur = Some x) (h x) = (c, del, again)"
    by (cases "animateEntry clock (cur = Some x) (h x)") auto
  have same: "filter (\<lambda>r. fst (snd (animateEntry clock (cur = Some r) ((h(x := c)) r)))) rs
     = filter (\<lambda>r. fst (snd (animateEntry clock (cur = Some r) (h r)))) rs"
    using Cons.prems by (intro filter_cong) auto
  from Cons.prems have "distinct rs" by simp
  from Cons.IH [OF this] ae same show ?case by simp
qed

lemma animateEntries_again:
  "distinct rs \<Longrightarrow>
   snd (snd (animateEntries clock cur rs (h, rm, sa))) =
     (sa \<or> (\<exists>r\<in>set rs. snd (snd (animateEntry clock (cur = Some r) (h r)))))"
proof (induction rs arbitrary: h rm sa)
  case Nil
  then show ?case by simp
next
  case (Cons x rs)
  obtain c del again where ae: "animateEntry clock (cur = Some x) (h x) = (c, del, again)"
    by (cases "animateEntry clock (cur = Some x) (h x)") auto
  have same: "(\<exists>r\<in>set rs. snd (snd (animateEntry clock (cur = Some r) ((h(x := c)) r))))
     = (\<exists>r\<in>set rs. snd (snd (animateEntry clock (cur = Some r) (h r))))"
    using Cons.prems by (intro bex_cong) auto
  from Cons.prems have "distinct rs" by simp
  from Cons.IH [OF this] ae same show ?case by auto
qed

subsection \<open>One entry in one frame\<close>

lemma js_min_one_ge: "js_le (Fin 1) (js_min (Fin 1) q) \<Longrightarrow> js_min (Fin 1) q = Fin 1"
  by (cases q) (auto split: if_splits)

lemma animateEntry_Here: "state ctx = Here \<Longrightarrow> animateEntry clock b ctx = (ctx, False, False)"
  by (simp add: animateEntry_def)

lemma animateEntry_Entering:
  "state ctx = Entering \<Longrightarrow>
   animateEntry clock b ctx =
     (let t = (case startTime ctx of None \<Rightarrow> clock | Some u \<Rightarrow> u);
          e = js_min (Fin 1) (js_div (js_sub clock t) (enter (timings ctx)))
      in if js_ge e (Fin 1)
         then (ctx\<lparr>state := (if b then Here else Leaving), existence := e, startTime := None\<rparr>,
               False, \<not> b)
         else (ctx\<lparr>existence := e, startTime := Some t\<rparr>, False, True))"
  by (cases "startTime ctx") (simp_all add: animateEntry_def Let_def)

lemma animateEntry_Leaving:
  "state ctx = Leaving \<Longrightarrow>
   animateEntry clock b ctx =
     (let t = (case startTime ctx of None \<Rightarrow> clock | Some u \<Rightarrow> u);
          e = js_sub (Fin 1) (js_min (Fin 1) (js_div (js_sub clock t) (leave (timings ctx))))
      in (ctx\<lparr>existence := e, startTime := Some t\<rparr>, js_le e (Fin 0), \<not> js_le e (Fin 0)))"
  by (cases "startTime ctx") (simp_all add: animateEntry_def Let_def)

lemma animateEntry_Reverse:
  "state ctx = Reverse \<Longrightarrow>
   animateEntry clock b ctx =
     (let t = js_sub clock (js_mul (leave (timings ctx)) (js_sub (Fin 1) (existence ctx)));
          e = js_sub (Fin 1) (js_min (Fin 1) (js_div (js_sub clock t) (leave (timings ctx))))
      in (ctx\<lparr>state := Leaving, existence := e, startTime := Some t\<rparr>,
          js_le e (Fin 0), \<not> js_le e (Fin 0)))"
  by (cases "startTime ctx") (simp_all add: animateEntry_def Let_def reverseAnimation_def)

lemmas animateEntry_cases =
  animateEntry_Here animateEntry_Entering animateEntry_Leaving animateEntry_Reverse

lemma animateEntry_keeps [simp]:
  "implicit (fst (animateEntry clock b ctx)) = implicit ctx"
  "timings (fst (animateEntry clock b ctx)) = timings ctx"
  by (cases "state ctx"; simp add: animateEntry_cases Let_def)+

lemma animateEntry_removed:
  "fst (snd (animateEntry clock b ctx)) \<Longrightarrow> state (fst (animateEntry clock b ctx)) = Leaving"
  by (cases "state ctx") (simp_all add: animateEntry_cases Let_def split: if_splits)

lemma animateEntry_becomes_Here:
  "state (fst (animateEntry clock b ctx)) = Here \<Longrightarrow> state ctx \<noteq> Here \<Longrightarrow>
   b \<and> state ctx = Entering \<and> startTime (fst (animateEntry clock b ctx)) = None \<and>
   existence (fst (animateEntry clock b ctx)) = Fin 1"
  by (cases "state ctx")
    (simp_all add: animateEntry_cases Let_def js_ge_def js_min_one_ge split: if_splits)

lemma animateEntry_current:
  "state ctx = Here \<or> state ctx = Entering \<Longrightarrow>
   (state (fst (animateEntry clock True ctx)) = Here \<or> state (fst (animateEntry clock True ctx)) = Entering)
   \<and> \<not> fst (snd (animateEntry clock True ctx))"
  by (cases "state ctx") (simp_all add: animateEntry_cases Let_def)

lemma animateEntry_not_Here:
  "state (fst (animateEntry clock b ctx)) \<noteq> Here \<Longrightarrow> state ctx \<noteq> Here"
  by (auto simp: animateEntry_Here)

subsection \<open>A whole frame\<close>

lemma animateEntries_result:
  assumes "distinct rs"
  shows "animateEntries clock cur rs (h, [], False) =
    ((\<lambda>r. if r \<in> set rs then fst (animateEntry clock (cur = Some r) (h r)) else h r),
     filter (\<lambda>r. fst (snd (animateEntry clock (cur = Some r) (h r)))) rs,
     (\<exists>r\<in>set rs. snd (snd (animateEntry clock (cur = Some r) (h r)))))"
proof -
  obtain h' rm sa where eq: "animateEntries clock cur rs (h, [], False) = (h', rm, sa)"
    by (cases "animateEntries clock cur rs (h, [], False)") auto
  have "h' = (\<lambda>r. if r \<in> set rs then fst (animateEntry clock (cur = Some r) (h r)) else h r)"
  proof
    fix r
    show "h' r = (if r \<in> set rs then fst (animateEntry clock (cur = Some r) (h r)) else h r)"
      using animateEntries_heap [OF assms, of r clock cur h "[]" False]
        animateEntries_heap_other [of r rs clock cur h "[]" False] eq by auto
  qed
  moreover have "rm = filter (\<lambda>r. fst (snd (animateEntry clock (cur = Some r) (h r)))) rs"
    using animateEntries_toRemove [OF assms, of clock cur h "[]" False] eq by simp
  moreover have "sa = (\<exists>r\<in>set rs. snd (snd (animateEntry clock (cur = Some r) (h r))))"
    using animateEntries_again [OF assms, of clock cur h "[]" False] eq by simp
  ultimately show ?thesis using eq by simp
qed

lemma doAnimationFrame_fields [simp]:
  "current (doAnimationFrame clock s) = current s"
  "window (doAnimationFrame clock s) = window s"
  "inited (doAnimationFrame clock s) = inited s"
  "animateByOptions (doAnimationFrame clock s) = animateByOptions s"
  "next_ref (doAnimationFrame clock s) = next_ref s"
  by (simp_all add: doAnimationFrame_def Let_def split: prod.splits)

lemma doAnimationFrame_heap:
  "distinct (stack s) \<Longrightarrow>
   heap (doAnimationFrame clock s) r =
     (if r \<in> set (stack s) then fst (animateEntry clock (current s = Some r) (heap s r))
      else heap s r)"
  by (simp add: doAnimationFrame_def Let_def animateEntries_result)

lemma doAnimationFrame_stack:
  "distinct (stack s) \<Longrightarrow>
   stack (doAnimationFrame clock s) =
     filter (\<lambda>r. \<not> fst (snd (animateEntry clock (current s = Some r) (heap s r)))) (stack s)"
proof -
  assume d: "distinct (stack s)"
  let ?del = "\<lambda>r. fst (snd (animateEntry clock (current s = Some r) (heap s r)))"
  have "filter (\<lambda>x. x \<notin> set (filter ?del (stack s))) (stack s) = filter (\<lambda>r. \<not> ?del r) (stack s)"
    by (intro filter_cong) auto
  with d show ?thesis
    by (simp add: doAnimationFrame_def Let_def animateEntries_result fold_removeStackEntry_stack)
qed

lemma doAnimationFrame_views:
  "distinct (stack s) \<Longrightarrow> views s = stack s \<Longrightarrow>
   views (doAnimationFrame clock s) = stack (doAnimationFrame clock s)"
  by (simp add: doAnimationFrame_def Let_def animateEntries_result fold_removeStackEntry_views)

lemma doAnimationFrame_animId:
  "distinct (stack s) \<Longrightarrow>
   animId (doAnimationFrame clock s) =
     (if (\<exists>r\<in>set (stack s). snd (snd (animateEntry clock (current s = Some r) (heap s r)))) \<and> window s
      then Some (Suc (next_handle s)) else None)"
  by (simp add: doAnimationFrame_def Let_def animateEntries_result scheduleAnimationFrame_def
      requestAnimationFrame_def)

lemma doAnimationFrame_pending:
  "distinct (stack s) \<Longrightarrow>
   pending (doAnimationFrame clock s) =
     (if (\<exists>r\<in>set (stack s). snd (snd (animateEntry clock (current s = Some r) (heap s r)))) \<and> window s
      then pending s @ [Suc (next_handle s)] else pending s)"
  by (simp add: doAnimationFrame_def Let_def animateEntries_result scheduleAnimationFrame_def
      requestAnimationFrame_def)

subsection \<open>The invariants hold in every execution\<close>

lemma stack_ok_cong:
  "stack t = stack s \<Longrightarrow> views t = views s \<Longrightarrow> next_ref t = next_ref s \<Longrightarrow>
   stack_ok t = stack_ok s"
  by (simp add: stack_ok_def)

lemma here_ok_cong:
  "stack t = stack s \<Longrightarrow> heap t = heap s \<Longrightarrow> current t = current s \<Longrightarrow> here_ok t = here_ok s"
  by (simp add: here_ok_def)

lemma current_ok_cong:
  "stack t = stack s \<Longrightarrow> heap t = heap s \<Longrightarrow> current t = current s \<Longrightarrow>
   current_ok t = current_ok s"
  by (simp add: current_ok_def)

lemma window_ok_cong:
  "stack t = stack s \<Longrightarrow> heap t = heap s \<Longrightarrow> current t = current s \<Longrightarrow>
   window t = window s \<Longrightarrow> inited t = inited s \<Longrightarrow> animId t = animId s \<Longrightarrow>
   window_ok t = window_ok s"
  by (simp add: window_ok_def)

lemma here_okD:
  "here_ok s \<Longrightarrow> r \<in> set (stack s) \<Longrightarrow> state (heap s r) = Here \<Longrightarrow>
   current s = Some r \<and> startTime (heap s r) = None \<and> existence (heap s r) = Fin 1"
  unfolding here_ok_def by blast

lemma here_okI:
  "(\<And>r. r \<in> set (stack s) \<Longrightarrow> state (heap s r) = Here \<Longrightarrow>
      current s = Some r \<and> startTime (heap s r) = None \<and> existence (heap s r) = Fin 1) \<Longrightarrow>
   here_ok s"
  unfolding here_ok_def by blast

lemma current_okD:
  "current_ok s \<Longrightarrow> current s = Some r \<Longrightarrow>
   r \<in> set (stack s) \<and> (state (heap s r) = Here \<or> state (heap s r) = Entering)"
  unfolding current_ok_def by blast

lemma window_okD:
  "window_ok s \<Longrightarrow> r \<in> set (stack s) \<Longrightarrow> state (heap s r) \<noteq> Here \<Longrightarrow> window s"
  "window_ok s \<Longrightarrow> window s \<Longrightarrow> inited s"
  "window_ok s \<Longrightarrow> \<not> window s \<Longrightarrow> animId s = None"
  "window_ok s \<Longrightarrow> \<not> window s \<Longrightarrow> stack s = (case current s of None \<Rightarrow> [] | Some r \<Rightarrow> [r])"
  unfolding window_ok_def by blast+

lemma stack_okD:
  "stack_ok s \<Longrightarrow> distinct (stack s)"
  "stack_ok s \<Longrightarrow> views s = stack s"
  "stack_ok s \<Longrightarrow> r \<in> set (stack s) \<Longrightarrow> r < next_ref s"
  unfolding stack_ok_def by blast+

lemma consistentD:
  "consistent s \<Longrightarrow> stack_ok s" "consistent s \<Longrightarrow> here_ok s"
  "consistent s \<Longrightarrow> current_ok s" "consistent s \<Longrightarrow> window_ok s"
  by (simp_all add: consistent_def)

lemma consistent_init: "consistent init"
  by (simp add: consistent_def stack_ok_def here_ok_def current_ok_def window_ok_def init_def)

lemma registered_init: "registered init"
  by (simp add: registered_def init_def)

lemma scheduleAnimationFrame_animId:
  "animId (scheduleAnimationFrame s) =
     (if animId s = None \<and> window s then Some (Suc (next_handle s)) else animId s)"
  by (simp add: scheduleAnimationFrame_def requestAnimationFrame_def)

lemma scheduleAnimationFrame_pending:
  "pending (scheduleAnimationFrame s) =
     (if animId s = None \<and> window s then pending s @ [Suc (next_handle s)] else pending s)"
  by (simp add: scheduleAnimationFrame_def requestAnimationFrame_def)

lemma registered_scheduleAnimationFrame:
  "registered s \<Longrightarrow> registered (scheduleAnimationFrame s)"
  by (auto simp: registered_def scheduleAnimationFrame_animId scheduleAnimationFrame_pending)

lemma scheduleAnimationFrame_no_window: "\<not> window s \<Longrightarrow> scheduleAnimationFrame s = s"
  by (simp add: scheduleAnimationFrame_def)

lemma window_ok_scheduleAnimationFrame:
  assumes "window_ok s"
  shows "window_ok (scheduleAnimationFrame s)"
proof (cases "window s")
  case True
  with window_okD(2) [OF assms] show ?thesis by (simp add: window_ok_def)
next
  case False
  with assms show ?thesis by (simp add: scheduleAnimationFrame_no_window)
qed

lemma consistent_scheduleAnimationFrame:
  "consistent s \<Longrightarrow> consistent (scheduleAnimationFrame s)"
  by (simp add: consistent_def window_ok_scheduleAnimationFrame
      stack_ok_cong [of "scheduleAnimationFrame s" s] here_ok_cong [of "scheduleAnimationFrame s" s]
      current_ok_cong [of "scheduleAnimationFrame s" s])

lemma removeCurrent_fields [simp]:
  "current (removeCurrent cur s) = None"
  "window (removeCurrent cur s) = window s"
  "inited (removeCurrent cur s) = inited s"
  "animateByOptions (removeCurrent cur s) = animateByOptions s"
  "next_ref (removeCurrent cur s) = next_ref s"
  by (simp_all add: removeCurrent_def Let_def)

lemma removeCurrent_heap:
  "heap (removeCurrent cur s) =
     (if window s \<and> state (heap s cur) = Here then (heap s)(cur := (heap s cur)\<lparr>state := Leaving\<rparr>)
      else if window s \<and> symmetric (animateByOptions s) \<and> state (heap s cur) = Entering
        then (heap s)(cur := (heap s cur)\<lparr>state := Reverse\<rparr>)
      else heap s)"
  by (simp add: removeCurrent_def Let_def)

lemma removeCurrent_heap_other: "r \<noteq> cur \<Longrightarrow> heap (removeCurrent cur s) r = heap s r"
  by (simp add: removeCurrent_heap)

lemma removeCurrent_state_cur:
  "window s \<Longrightarrow> state (heap s cur) = Here \<or> state (heap s cur) = Entering \<Longrightarrow>
   state (heap (removeCurrent cur s) cur) \<noteq> Here"
  by (auto simp: removeCurrent_heap)

lemma removeCurrent_stack:
  "stack (removeCurrent cur s) =
     (if window s then stack s else remove_at (indexOf (stack s) cur) (stack s))"
  "views (removeCurrent cur s) =
     (if window s then views s else remove_at (indexOf (stack s) cur) (views s))"
  by (simp_all add: removeCurrent_def Let_def removeStackEntry_def)

lemma removeCurrent_animId:
  "\<not> window s \<Longrightarrow> animId (removeCurrent cur s) = animId s"
  by (simp add: removeCurrent_def Let_def)

lemma consistent_removeCurrent:
  assumes "consistent s" and cur: "current s = Some cur"
  shows "consistent (removeCurrent cur s)"
proof (cases "window s")
  case True
  note sk = consistentD(1) [OF assms(1)] and hk = consistentD(2) [OF assms(1)]
    and ck = consistentD(3) [OF assms(1)] and wk = consistentD(4) [OF assms(1)]
  have st: "stack (removeCurrent cur s) = stack s" "views (removeCurrent cur s) = views s"
    using True by (simp_all add: removeCurrent_stack)
  have "stack_ok (removeCurrent cur s)"
    using sk st by (simp add: stack_ok_cong [of "removeCurrent cur s" s])
  moreover have "here_ok (removeCurrent cur s)"
  proof (rule here_okI)
    fix r
    assume r: "r \<in> set (stack (removeCurrent cur s))"
      and h: "state (heap (removeCurrent cur s) r) = Here"
    have "r \<noteq> cur"
      using h removeCurrent_state_cur [OF True, of cur] current_okD [OF ck cur] by auto
    with h have "state (heap s r) = Here" by (simp add: removeCurrent_heap_other)
    with here_okD [OF hk, of r] r st cur \<open>r \<noteq> cur\<close>
    show "current (removeCurrent cur s) = Some r \<and>
      startTime (heap (removeCurrent cur s) r) = None \<and>
      existence (heap (removeCurrent cur s) r) = Fin 1"
      by simp
  qed
  moreover have "current_ok (removeCurrent cur s)"
    by (simp add: current_ok_def)
  moreover have "window_ok (removeCurrent cur s)"
    using True window_okD(2) [OF wk] by (simp add: window_ok_def)
  ultimately show ?thesis by (simp add: consistent_def)
next
  case False
  note sk = consistentD(1) [OF assms(1)] and wk = consistentD(4) [OF assms(1)]
  from window_okD(4) [OF wk False] cur have "stack s = [cur]" by simp
  moreover from this stack_okD(2) [OF sk] have "views s = [cur]" by simp
  moreover from window_okD(3) [OF wk False] have "animId s = None" .
  ultimately have "stack (removeCurrent cur s) = []" "views (removeCurrent cur s) = []"
    "animId (removeCurrent cur s) = None"
    using False by (simp_all add: removeCurrent_stack removeCurrent_animId remove_at_def)
  then show ?thesis
    using False
    by (simp add: consistent_def stack_ok_def here_ok_def current_ok_def window_ok_def)
qed

lemma registered_removeCurrent: "registered s \<Longrightarrow> registered (removeCurrent cur s)"
proof -
  assume r: "registered s"
  then have "registered (s\<lparr>heap := h\<rparr>)" for h
    by (simp add: registered_def)
  then have 1: "registered (scheduleAnimationFrame (s\<lparr>heap := h\<rparr>))" for h
    by (rule registered_scheduleAnimationFrame)
  have 2: "registered (removeStackEntry cur s)"
    using r by (simp add: registered_def)
  have 3: "registered (t\<lparr>current := None\<rparr>)" if "registered t" for t :: "'a directive"
    using that by (simp add: registered_def)
  show ?thesis
    unfolding removeCurrent_def Let_def using r 1 2 by (auto intro!: 3)
qed

lemma newCurrent_fields [simp]:
  "current (newCurrent v s) = Some (next_ref s)"
  "window (newCurrent v s) = window s"
  "inited (newCurrent v s) = inited s"
  "animateByOptions (newCurrent v s) = animateByOptions s"
  "next_ref (newCurrent v s) = Suc (next_ref s)"
  "stack (newCurrent v s) = stack s @ [next_ref s]"
  "views (newCurrent v s) = views s @ [next_ref s]"
  by (simp_all add: newCurrent_def Let_def)

lemma newCurrent_heap:
  "heap (newCurrent v s) = (heap s)(next_ref s :=
     new_AnimateByContext v (if \<not> window s \<or> \<not> inited s then Here else Entering)
       (case opt_timings (animateByOptions s) of Some t \<Rightarrow> t | None \<Rightarrow> defaultAnimateByTimings))"
  by (simp add: newCurrent_def Let_def)

lemma newCurrent_heap_other: "r \<noteq> next_ref s \<Longrightarrow> heap (newCurrent v s) r = heap s r"
  by (simp add: newCurrent_heap)

lemma newCurrent_heap_new:
  "state (heap (newCurrent v s) (next_ref s)) = (if \<not> window s \<or> \<not> inited s then Here else Entering)"
  "startTime (heap (newCurrent v s) (next_ref s)) = None"
  "existence (heap (newCurrent v s) (next_ref s)) =
     (if \<not> window s \<or> \<not> inited s then Fin 1 else Fin 0)"
  "implicit (heap (newCurrent v s) (next_ref s)) = v"
  "timings (heap (newCurrent v s) (next_ref s)) =
     (case opt_timings (animateByOptions s) of Some t \<Rightarrow> t | None \<Rightarrow> defaultAnimateByTimings)"
  by (simp_all add: newCurrent_heap new_AnimateByContext_def)

lemma newCurrent_animId:
  "\<not> window s \<Longrightarrow> animId (newCurrent v s) = animId s"
  by (simp add: newCurrent_def Let_def)

lemma consistent_newCurrent:
  assumes "consistent s" and cur: "current s = None"
  shows "consistent (newCurrent v s)"
proof -
  note sk = consistentD(1) [OF assms(1)] and hk = consistentD(2) [OF assms(1)]
    and ck = consistentD(3) [OF assms(1)] and wk = consistentD(4) [OF assms(1)]
  have no_here: "state (heap s r) \<noteq> Here" if "r \<in> set (stack s)" for r
    using here_okD [OF hk that] cur by auto
  have fresh: "next_ref s \<notin> set (stack s)"
    using stack_okD(3) [OF sk, of "next_ref s"] by auto
  have "stack_ok (newCurrent v s)"
    using stack_okD [OF sk] fresh by (auto simp: stack_ok_def less_Suc_eq)
  moreover have "here_ok (newCurrent v s)"
  proof (rule here_okI)
    fix r
    assume r: "r \<in> set (stack (newCurrent v s))"
      and h: "state (heap (newCurrent v s) r) = Here"
    have "r = next_ref s"
    proof (rule ccontr)
      assume "r \<noteq> next_ref s"
      with r h no_here [of r] show False by (simp add: newCurrent_heap_other)
    qed
    with h show "current (newCurrent v s) = Some r \<and>
      startTime (heap (newCurrent v s) r) = None \<and>
      existence (heap (newCurrent v s) r) = Fin 1"
      by (simp add: newCurrent_heap_new split: if_splits)
  qed
  moreover have "current_ok (newCurrent v s)"
    by (simp add: current_ok_def newCurrent_heap_new)
  moreover have "window_ok (newCurrent v s)"
  proof (cases "window s")
    case True
    with window_okD(2) [OF wk] show ?thesis by (simp add: window_ok_def)
  next
    case False
    with window_okD(3,4) [OF wk] cur have "animId s = None" "stack s = []" by simp_all
    with False show ?thesis
      by (simp add: window_ok_def newCurrent_animId newCurrent_heap_new)
  qed
  ultimately show ?thesis by (simp add: consistent_def)
qed

lemma registered_newCurrent: "registered s \<Longrightarrow> registered (newCurrent v s)"
proof -
  assume "registered s"
  then have "registered (s\<lparr>heap := h, next_ref := n, views := vs, current := c, stack := st\<rparr>)"
    for h n vs c st
    by (simp add: registered_def)
  then show ?thesis
    unfolding newCurrent_def by (simp add: Let_def registered_scheduleAnimationFrame)
qed

lemma consistent_animateBy: "consistent s \<Longrightarrow> consistent (animateBy v s)"
  by (auto simp: animateBy_def Let_def consistent_removeCurrent consistent_newCurrent
      split: option.splits)

lemma registered_animateBy: "registered s \<Longrightarrow> registered (animateBy v s)"
  by (auto simp: animateBy_def Let_def registered_removeCurrent registered_newCurrent
      split: option.splits)

lemma ngOnInit_fields [simp]:
  "stack (ngOnInit w s) = stack s" "views (ngOnInit w s) = views s"
  "current (ngOnInit w s) = current s" "heap (ngOnInit w s) = heap s"
  "next_ref (ngOnInit w s) = next_ref s" "animId (ngOnInit w s) = animId s"
  "pending (ngOnInit w s) = pending s" "inited (ngOnInit w s) = True"
  "animateByOptions (ngOnInit w s) = animateByOptions s"
  "window (ngOnInit w s) = (case w of None \<Rightarrow> window s | Some b \<Rightarrow> b)"
  by (cases w; simp add: ngOnInit_def)+

lemma consistent_ngOnInit:
  assumes "consistent s" and "\<not> inited s"
  shows "consistent (ngOnInit w s)"
proof -
  note sk = consistentD(1) [OF assms(1)] and hk = consistentD(2) [OF assms(1)]
    and ck = consistentD(3) [OF assms(1)] and wk = consistentD(4) [OF assms(1)]
  from window_okD(2) [OF wk] assms(2) have nw: "\<not> window s" by auto
  have all_here: "state (heap s r) = Here" if "r \<in> set (stack s)" for r
    using window_okD(1) [OF wk that] nw by auto
  have "window_ok (ngOnInit w s)"
    using window_okD(3,4) [OF wk nw] nw all_here by (cases w) (simp_all add: window_ok_def)
  with sk hk ck show ?thesis
    by (simp add: consistent_def stack_ok_cong [of "ngOnInit w s" s]
        here_ok_cong [of "ngOnInit w s" s] current_ok_cong [of "ngOnInit w s" s])
qed

lemma registered_ngOnInit: "registered s \<Longrightarrow> registered (ngOnInit w s)"
  by (simp add: registered_def)


lemma registered_doAnimationFrame:
  assumes "distinct (stack s)" and "pending s = []"
  shows "registered (doAnimationFrame clock s)"
  using assms by (simp add: registered_def doAnimationFrame_animId doAnimationFrame_pending)

lemma consistent_doAnimationFrame:
  assumes "consistent s"
  shows "consistent (doAnimationFrame clock s)"
proof -
  note sk = consistentD(1) [OF assms] and hk = consistentD(2) [OF assms]
    and ck = consistentD(3) [OF assms] and wk = consistentD(4) [OF assms]
  note d = stack_okD(1) [OF sk]
  let ?t = "doAnimationFrame clock s"
  let ?ae = "\<lambda>r. animateEntry clock (current s = Some r) (heap s r)"
  have sub: "r \<in> set (stack s)" if "r \<in> set (stack ?t)" for r
    using that by (simp add: doAnimationFrame_stack [OF d])
  have hp: "heap ?t r = fst (?ae r)" if "r \<in> set (stack s)" for r
    using that by (simp add: doAnimationFrame_heap [OF d])
  have "stack_ok ?t"
    using stack_okD [OF sk]
    by (simp add: stack_ok_def doAnimationFrame_views [OF d] doAnimationFrame_stack [OF d])
  moreover have "here_ok ?t"
  proof (rule here_okI)
    fix r
    assume r: "r \<in> set (stack ?t)" and h: "state (heap ?t r) = Here"
    from r have rs: "r \<in> set (stack s)" by (rule sub)
    from h have h': "state (fst (?ae r)) = Here" by (simp add: hp [OF rs])
    show "current ?t = Some r \<and> startTime (heap ?t r) = None \<and> existence (heap ?t r) = Fin 1"
    proof (cases "state (heap s r) = Here")
      case True
      with here_okD [OF hk rs] show ?thesis
        by (simp add: hp [OF rs] animateEntry_Here)
    next
      case False
      from animateEntry_becomes_Here [OF h' False] show ?thesis
        by (auto simp: hp [OF rs])
    qed
  qed
  moreover have "current_ok ?t"
    unfolding current_ok_def
  proof (intro allI impI)
    fix r
    assume "current ?t = Some r"
    then have c: "current s = Some r" by simp
    from current_okD [OF ck c] have rs: "r \<in> set (stack s)"
      and st: "state (heap s r) = Here \<or> state (heap s r) = Entering" by simp_all
    from animateEntry_current [OF st, of clock] c
    show "r \<in> set (stack ?t) \<and> (state (heap ?t r) = Here \<or> state (heap ?t r) = Entering)"
      using rs by (simp add: hp [OF rs] doAnimationFrame_stack [OF d])
  qed
  moreover have "window_ok ?t"
  proof (cases "window s")
    case True
    with window_okD(2) [OF wk] show ?thesis by (simp add: window_ok_def)
  next
    case False
    have all_here: "state (heap s r) = Here" if "r \<in> set (stack s)" for r
      using window_okD(1) [OF wk that] False by auto
    have same: "stack ?t = stack s"
      by (simp add: doAnimationFrame_stack [OF d] animateEntry_Here all_here)
    have "state (heap ?t r) = Here" if "r \<in> set (stack s)" for r
      using that by (simp add: hp animateEntry_Here all_here)
    with False window_okD(4) [OF wk False] show ?thesis
      by (simp add: window_ok_def same doAnimationFrame_animId [OF d])
  qed
  ultimately show ?thesis by (simp add: consistent_def)
qed

lemma frame_cases:
  "pending s = [] \<Longrightarrow> frame clock s = s"
  "pending s = [h] \<Longrightarrow> frame clock s = doAnimationFrame (Fin clock) (s\<lparr>pending := []\<rparr>)"
  by (simp_all add: frame_def)

lemma consistent_pending: "consistent (s\<lparr>pending := p\<rparr>) = consistent s"
  by (simp add: consistent_def stack_ok_cong [of "s\<lparr>pending := p\<rparr>" s]
      here_ok_cong [of "s\<lparr>pending := p\<rparr>" s] current_ok_cong [of "s\<lparr>pending := p\<rparr>" s]
      window_ok_cong [of "s\<lparr>pending := p\<rparr>" s])

lemma registered_pending: "registered s \<Longrightarrow> pending s = [] \<or> (\<exists>h. pending s = [h])"
  by (cases "pending s") (auto simp: registered_def)

lemma invariants_frame:
  assumes "consistent s" and "registered s"
  shows "consistent (frame clock s) \<and> registered (frame clock s)"
proof -
  from registered_pending [OF assms(2)] show ?thesis
  proof
    assume "pending s = []"
    with assms show ?thesis by (simp add: frame_cases)
  next
    assume "\<exists>h. pending s = [h]"
    then obtain h where h: "pending s = [h]" ..
    have c: "consistent (s\<lparr>pending := []\<rparr>)" using assms(1) by (simp add: consistent_pending)
    have "distinct (stack (s\<lparr>pending := []\<rparr>))"
      using stack_okD(1) [OF consistentD(1) [OF assms(1)]] by simp
    then have "registered (doAnimationFrame (Fin clock) (s\<lparr>pending := []\<rparr>))"
      by (rule registered_doAnimationFrame) simp
    with consistent_doAnimationFrame [OF c] h show ?thesis by (simp add: frame_cases)
  qed
qed

lemma ngOnDestroy_result:
  assumes "consistent s" and "registered s"
  shows "ngOnDestroy s = Some (s\<lparr>pending := []\<rparr>)"
proof (cases "animId s")
  case None
  with assms(2) have "pending s = []" by (auto simp: registered_def)
  with None show ?thesis by (simp add: ngOnDestroy_def)
next
  case (Some h)
  with assms(2) have h: "h \<noteq> 0" and p: "pending s = [] \<or> pending s = [h]"
    by (auto simp: registered_def)
  from Some window_okD(3) [OF consistentD(4) [OF assms(1)]] have "window s" by auto
  with Some h p show ?thesis
    by (auto simp: ngOnDestroy_def cancelAnimationFrame_def)
qed

lemma registered_pending_empty: "registered s \<Longrightarrow> registered (s\<lparr>pending := []\<rparr>)"
  by (simp add: registered_def)

lemma consistent_options: "consistent (s\<lparr>animateByOptions := opts\<rparr>) = consistent s"
  by (simp add: consistent_def stack_ok_cong [of "s\<lparr>animateByOptions := opts\<rparr>" s]
      here_ok_cong [of "s\<lparr>animateByOptions := opts\<rparr>" s]
      current_ok_cong [of "s\<lparr>animateByOptions := opts\<rparr>" s]
      window_ok_cong [of "s\<lparr>animateByOptions := opts\<rparr>" s])

lemma invariants_step:
  assumes "consistent s" and "registered s"
  shows "consistent (step ev s) \<and> registered (step ev s)"
proof (cases ev)
  case (NgOnInit w)
  with assms show ?thesis by (simp add: consistent_ngOnInit registered_ngOnInit)
next
  case (SetAnimateBy v)
  with assms show ?thesis by (simp add: consistent_animateBy registered_animateBy)
next
  case (SetOptions opts)
  with assms show ?thesis by (simp add: consistent_options registered_def)
next
  case (Frame clock)
  with invariants_frame [OF assms] show ?thesis by simp
next
  case NgOnDestroy
  with assms show ?thesis
    by (simp add: ngOnDestroy_result consistent_pending registered_pending_empty)
qed

lemma invariants_fold:
  "consistent s \<Longrightarrow> registered s \<Longrightarrow>
   consistent (fold step evs s) \<and> registered (fold step evs s)"
  by (induction evs arbitrary: s) (simp_all add: invariants_step)

lemma current_indexed:
  assumes "consistent s" and "current s = Some cur"
  shows "indexOf (stack s) cur \<noteq> None"
  using current_okD [OF consistentD(3) [OF assms(1)] assms(2)] by (simp add: indexOf_None)

lemma consistent_run: "consistent (run evs)"
  by (simp add: run_def invariants_fold consistent_init registered_init)

lemma registered_run: "registered (run evs)"
  by (simp add: run_def invariants_fold consistent_init registered_init)

subsection \<open>One entry here, one callback queued\<close>

text \<open>The defining equations that evaluate a concrete execution.\<close>

lemmas exec =
  run_def frame_def animateBy_def newCurrent_def removeCurrent_def scheduleAnimationFrame_def
  requestAnimationFrame_def cancelAnimationFrame_def doAnimationFrame_def animateEntry_def
  reverseAnimation_def new_AnimateByContext_def init_def ngOnInit_def ngOnDestroy_def
  removeStackEntry_def remove_at_def js_ge_def defaultAnimateByTimings_def Let_def

lemma distinct_all_equal: "distinct xs \<Longrightarrow> \<forall>x\<in>set xs. x = c \<Longrightarrow> length xs \<le> 1"
  by (cases xs; cases "tl xs") auto

text \<open>
  \<^bold>\<open>C1.\<close> Whatever setter calls, option changes, frames and life-cycle calls the directive
  has seen, with a window or without one, at most one entry of the stack is in state
  \<open>Here\<close>.
\<close>

theorem at_most_one_here:
  "length (filter (\<lambda>r. state (heap (run evs) r) = Here) (stack (run evs))) \<le> 1"
proof -
  let ?s = "run evs"
  let ?hs = "filter (\<lambda>r. state (heap ?s r) = Here) (stack ?s)"
  have c: "consistent ?s" by (rule consistent_run)
  have "distinct ?hs"
    using stack_okD(1) [OF consistentD(1) [OF c]] by simp
  moreover have "\<forall>r\<in>set ?hs. r = the (current ?s)"
    using here_okD [OF consistentD(2) [OF c]] by auto
  ultimately show ?thesis by (rule distinct_all_equal)
qed

theorem at_most_one_here_witness:
  "map (\<lambda>r. state (heap (run [NgOnInit (Some True), SetAnimateBy (Some (1::nat)), Frame 0,
       Frame 1000, SetOptions \<lparr>symmetric = False, opt_timings = Some \<lparr>enter = Fin 100, leave = Fin 1000\<rparr>\<rparr>,
       SetAnimateBy (Some 2), Frame 1100, Frame 1600]) r))
     (stack (run [NgOnInit (Some True), SetAnimateBy (Some (1::nat)), Frame 0,
       Frame 1000, SetOptions \<lparr>symmetric = False, opt_timings = Some \<lparr>enter = Fin 100, leave = Fin 1000\<rparr>\<rparr>,
       SetAnimateBy (Some 2), Frame 1100, Frame 1600])) = [Leaving, Here]
   \<and> length (filter (\<lambda>r. state (heap (run [NgOnInit (Some True), SetAnimateBy (Some (1::nat)), Frame 0,
       Frame 1000, SetOptions \<lparr>symmetric = False, opt_timings = Some \<lparr>enter = Fin 100, leave = Fin 1000\<rparr>\<rparr>,
       SetAnimateBy (Some 2), Frame 1100, Frame 1600]) r) = Here)
     (stack (run [NgOnInit (Some True), SetAnimateBy (Some (1::nat)), Frame 0,
       Frame 1000, SetOptions \<lparr>symmetric = False, opt_timings = Some \<lparr>enter = Fin 100, leave = Fin 1000\<rparr>\<rparr>,
       SetAnimateBy (Some 2), Frame 1100, Frame 1600]))) \<le> 1"
  using at_most_one_here [of "[NgOnInit (Some True), SetAnimateBy (Some (1::nat)), Frame 0,
       Frame 1000, SetOptions \<lparr>symmetric = False, opt_timings = Some \<lparr>enter = Fin 100, leave = Fin 1000\<rparr>\<rparr>,
       SetAnimateBy (Some 2), Frame 1100, Frame 1600]"]
  by (simp add: exec)

text \<open>
  \<^bold>\<open>C8.\<close> In every execution the frame queue holds at most one callback of the
  directive, and a callback it holds is the one \<open>animId\<close> names. While one is queued,
  \<^verbatim>\<open>scheduleAnimationFrame\<close> changes nothing; it never queues a second one, also when it
  is called twice in a row or after \<^verbatim>\<open>removeCurrent\<close> inside the setter. A frame
  started by the browser from such a state runs \<^verbatim>\<open>doAnimationFrame\<close> once, on an empty
  queue, and \<^verbatim>\<open>doAnimationFrame\<close>, which clears \<open>animId\<close> first, ends with at most one
  callback queued.
\<close>

theorem single_frame_registration:
  "length (pending (run evs)) \<le> 1
   \<and> (pending (run evs) = [] \<or> map Some (pending (run evs)) = [animId (run evs)])
   \<and> (pending (run evs) = [] \<or> scheduleAnimationFrame (run evs) = run evs)
   \<and> length (pending (scheduleAnimationFrame (run evs))) \<le> 1
   \<and> scheduleAnimationFrame (scheduleAnimationFrame (run evs)) = scheduleAnimationFrame (run evs)
   \<and> length (pending (removeCurrent cur (run evs))) \<le> 1
   \<and> (pending (run evs) = [] \<or>
        frame clock (run evs) = doAnimationFrame (Fin clock) ((run evs)\<lparr>pending := []\<rparr>))
   \<and> length (pending (doAnimationFrame (Fin clock) ((run evs)\<lparr>pending := []\<rparr>))) \<le> 1"
proof -
  let ?s = "run evs"
  have r: "registered ?s" by (rule registered_run)
  have len: "length (pending t) \<le> 1" if "registered t" for t :: "'a directive"
    using registered_pending [OF that] by auto
  have 1: "length (pending ?s) \<le> 1" using r by (rule len)
  have 2: "pending ?s = [] \<or> map Some (pending ?s) = [animId ?s]"
    using r by (simp add: registered_def)
  have 3: "pending ?s = [] \<or> scheduleAnimationFrame ?s = ?s"
    using 2 by (auto simp: scheduleAnimationFrame_def)
  have 4: "length (pending (scheduleAnimationFrame ?s)) \<le> 1"
    using registered_scheduleAnimationFrame [OF r] by (rule len)
  have 5: "scheduleAnimationFrame (scheduleAnimationFrame ?s) = scheduleAnimationFrame ?s"
    by (simp add: scheduleAnimationFrame_def requestAnimationFrame_def)
  have 6: "length (pending (removeCurrent cur ?s)) \<le> 1"
    using registered_removeCurrent [OF r] by (rule len)
  have 7: "pending ?s = [] \<or> frame clock ?s = doAnimationFrame (Fin clock) (?s\<lparr>pending := []\<rparr>)"
    using registered_pending [OF r] by (auto simp: frame_cases)
  have "distinct (stack (?s\<lparr>pending := []\<rparr>))"
    using stack_okD(1) [OF consistentD(1) [OF consistent_run [of evs]]] by simp
  then have "registered (doAnimationFrame (Fin clock) (?s\<lparr>pending := []\<rparr>))"
    by (rule registered_doAnimationFrame) simp
  then have 8: "length (pending (doAnimationFrame (Fin clock) (?s\<lparr>pending := []\<rparr>))) \<le> 1"
    by (rule len)
  from 1 2 3 4 5 6 7 8 show ?thesis by blast
qed

theorem single_frame_registration_witness:
  "pending (run [NgOnInit (Some True), SetAnimateBy (Some (1::nat)), SetAnimateBy (Some 2),
      Frame 0, SetAnimateBy None]) = [2]
   \<and> animId (run [NgOnInit (Some True), SetAnimateBy (Some (1::nat)), SetAnimateBy (Some 2),
      Frame 0, SetAnimateBy None]) = Some 2
   \<and> length (pending (run [NgOnInit (Some True), SetAnimateBy (Some (1::nat)), SetAnimateBy (Some 2),
      Frame 0, SetAnimateBy None])) \<le> 1
   \<and> scheduleAnimationFrame (run [NgOnInit (Some True), SetAnimateBy (Some (1::nat)),
        SetAnimateBy (Some 2), Frame 0, SetAnimateBy None])
      = run [NgOnInit (Some True), SetAnimateBy (Some (1::nat)), SetAnimateBy (Some 2),
        Frame 0, SetAnimateBy None]"
  using single_frame_registration [of "[NgOnInit (Some True), SetAnimateBy (Some (1::nat)),
      SetAnimateBy (Some 2), Frame 0, SetAnimateBy None]" 0 0]
  by (simp add: exec)

subsection \<open>Without a window\<close>

lemma no_window_state:
  assumes "consistent s" and "registered s" and "\<not> window s"
  shows "animId s = None" and "pending s = []"
    and "r \<in> set (stack s) \<Longrightarrow> state (heap s r) = Here \<and> existence (heap s r) = Fin 1"
proof -
  note hk = consistentD(2) [OF assms(1)] and wk = consistentD(4) [OF assms(1)]
  show a: "animId s = None" using window_okD(3) [OF wk assms(3)] .
  with assms(2) show "pending s = []" by (auto simp: registered_def)
  assume r: "r \<in> set (stack s)"
  with window_okD(1) [OF wk r] assms(3) have "state (heap s r) = Here" by auto
  with here_okD [OF hk r] show "state (heap s r) = Here \<and> existence (heap s r) = Fin 1" by simp
qed

lemma animateBy_unfold:
  "animateBy v s =
     (case current s of
        None \<Rightarrow> (case v of None \<Rightarrow> s | Some x \<Rightarrow> newCurrent x s)
      | Some cur \<Rightarrow>
          if v = Some (implicit (heap s cur)) then s
          else (case v of None \<Rightarrow> removeCurrent cur s | Some x \<Rightarrow> newCurrent x (removeCurrent cur s)))"
  by (auto simp: animateBy_def Let_def split: option.splits)

lemma animateBy_window [simp]: "window (animateBy v s) = window s"
  by (simp add: animateBy_unfold split: option.splits)

lemma animateBy_no_window:
  assumes "consistent s" and "registered s" and "\<not> window s"
  shows "\<exists>q. stack (animateBy (Some x) s) = [q] \<and> views (animateBy (Some x) s) = [q] \<and>
           current (animateBy (Some x) s) = Some q \<and>
           implicit (heap (animateBy (Some x) s) q) = x \<and>
           state (heap (animateBy (Some x) s) q) = Here \<and>
           existence (heap (animateBy (Some x) s) q) = Fin 1"
proof -
  let ?t = "animateBy (Some x) s"
  have c: "consistent ?t" using assms(1) by (rule consistent_animateBy)
  have r: "registered ?t" using assms(2) by (rule registered_animateBy)
  have w: "\<not> window ?t" using assms(3) by simp
  have cur: "current ?t \<noteq> None"
    by (simp add: animateBy_unfold split: option.splits)
  then obtain q where q: "current ?t = Some q" by auto
  have val: "implicit (heap ?t q) = x"
    using q
    by (auto simp: animateBy_unfold newCurrent_heap new_AnimateByContext_def
        split: option.splits if_splits)
  from window_okD(4) [OF consistentD(4) [OF c] w] q have st: "stack ?t = [q]" by simp
  with stack_okD(2) [OF consistentD(1) [OF c]] have "views ?t = [q]" by simp
  moreover from no_window_state(3) [OF c r w, of q] st
  have "state (heap ?t q) = Here \<and> existence (heap ?t q) = Fin 1" by simp
  ultimately show ?thesis using q st val by simp
qed

text \<open>
  \<^bold>\<open>C6.\<close> While the directive holds no window (none could be found, or \<^verbatim>\<open>ngOnInit\<close>
  has not run yet), every entry of the stack is in state \<open>Here\<close> with existence 1 and no
  frame callback is queued or recorded. Setting a value \<open>x\<close> and then a different value
  \<open>y\<close> leaves, after each call, exactly one entry on the stack and one view in the view
  container, the entry of the value just set, in state \<open>Here\<close> with existence 1; the
  second entry is a new one, and still no frame callback is queued.
\<close>

theorem no_window_instant:
  assumes "\<not> window (run evs)" and "x \<noteq> y"
  shows "(\<forall>r\<in>set (stack (run evs)).
            state (heap (run evs) r) = Here \<and> existence (heap (run evs) r) = Fin 1)
    \<and> pending (run evs) = [] \<and> animId (run evs) = None
    \<and> (\<exists>q. stack (animateBy (Some x) (run evs)) = [q]
          \<and> implicit (heap (animateBy (Some x) (run evs)) q) = x)
    \<and> pending (animateBy (Some x) (run evs)) = []
    \<and> animId (animateBy (Some x) (run evs)) = None
    \<and> (\<exists>q. stack (animateBy (Some y) (animateBy (Some x) (run evs))) = [q]
          \<and> views (animateBy (Some y) (animateBy (Some x) (run evs))) = [q]
          \<and> current (animateBy (Some y) (animateBy (Some x) (run evs))) = Some q
          \<and> q \<notin> set (stack (animateBy (Some x) (run evs)))
          \<and> implicit (heap (animateBy (Some y) (animateBy (Some x) (run evs))) q) = y
          \<and> state (heap (animateBy (Some y) (animateBy (Some x) (run evs))) q) = Here
          \<and> existence (heap (animateBy (Some y) (animateBy (Some x) (run evs))) q) = Fin 1)
    \<and> pending (animateBy (Some y) (animateBy (Some x) (run evs))) = []
    \<and> animId (animateBy (Some y) (animateBy (Some x) (run evs))) = None"
proof -
  let ?s = "run evs"
  let ?s1 = "animateBy (Some x) ?s"
  let ?s2 = "animateBy (Some y) ?s1"
  have c: "consistent ?s" by (rule consistent_run)
  have r: "registered ?s" by (rule registered_run)
  have c1: "consistent ?s1" using c by (rule consistent_animateBy)
  have r1: "registered ?s1" using r by (rule registered_animateBy)
  have c2: "consistent ?s2" using c1 by (rule consistent_animateBy)
  have r2: "registered ?s2" using r1 by (rule registered_animateBy)
  have w1: "\<not> window ?s1" and w2: "\<not> window ?s2" using assms(1) by simp_all
  from animateBy_no_window [OF c r assms(1), of x]
  obtain q where q: "stack ?s1 = [q]" "current ?s1 = Some q" "implicit (heap ?s1 q) = x"
    by blast
  from animateBy_no_window [OF c1 r1 w1, of y]
  obtain p where p: "stack ?s2 = [p]" "views ?s2 = [p]" "current ?s2 = Some p"
    "implicit (heap ?s2 p) = y" "state (heap ?s2 p) = Here" "existence (heap ?s2 p) = Fin 1"
    by blast
  have "current ?s2 = Some (next_ref ?s1)"
    using q assms(2) by (simp add: animateBy_unfold [of "Some y"])
  with p(3) have "p = next_ref ?s1" by simp
  with stack_okD(3) [OF consistentD(1) [OF c1], of p] have fresh: "p \<notin> set (stack ?s1)" by auto
  have "\<forall>r\<in>set (stack ?s). state (heap ?s r) = Here \<and> existence (heap ?s r) = Fin 1"
    using no_window_state(3) [OF c r assms(1)] by blast
  moreover have "\<exists>q. stack ?s1 = [q] \<and> implicit (heap ?s1 q) = x" using q by blast
  moreover have "\<exists>q. stack ?s2 = [q] \<and> views ?s2 = [q] \<and> current ?s2 = Some q \<and>
      q \<notin> set (stack ?s1) \<and> implicit (heap ?s2 q) = y \<and> state (heap ?s2 q) = Here \<and>
      existence (heap ?s2 q) = Fin 1"
    using p fresh by blast
  ultimately show ?thesis
    using no_window_state(1,2) [OF c r assms(1)] no_window_state(1,2) [OF c1 r1 w1]
      no_window_state(1,2) [OF c2 r2 w2]
    by blast
qed

theorem no_window_instant_witness:
  "\<not> window (run [SetAnimateBy (Some (7::nat))]) \<and> (8::nat) \<noteq> 9
   \<and> stack (animateBy (Some 9) (animateBy (Some 8) (run [SetAnimateBy (Some (7::nat))]))) = [2]
   \<and> implicit (heap (animateBy (Some 9) (animateBy (Some 8) (run [SetAnimateBy (Some (7::nat))]))) 2) = 9
   \<and> pending (animateBy (Some 9) (animateBy (Some 8) (run [SetAnimateBy (Some (7::nat))]))) = []"
  using no_window_instant [of "[SetAnimateBy (Some (7::nat))]" 8 9]
  by (simp add: exec)

text \<open>
  \<^bold>\<open>C7.\<close> In every execution \<^verbatim>\<open>ngOnDestroy\<close> returns without a \<open>TypeError\<close>, and all
  it does is take the queued callback, if there is one, out of the frame queue: a frame
  of the browser then runs nothing. The stack, the contexts and the view container are
  left as they are.
\<close>

theorem ngOnDestroy_cancels_only:
  "ngOnDestroy (run evs) = Some ((run evs)\<lparr>pending := []\<rparr>)
   \<and> frame clock ((run evs)\<lparr>pending := []\<rparr>) = (run evs)\<lparr>pending := []\<rparr>"
proof
  show "ngOnDestroy (run evs) = Some ((run evs)\<lparr>pending := []\<rparr>)"
    using consistent_run registered_run by (rule ngOnDestroy_result)
next
  have "pending ((run evs)\<lparr>pending := []\<rparr>) = []" by simp
  then show "frame clock ((run evs)\<lparr>pending := []\<rparr>) = (run evs)\<lparr>pending := []\<rparr>"
    by (rule frame_cases(1))
qed

theorem ngOnDestroy_cancels_only_witness:
  "pending (run [NgOnInit (Some True), SetAnimateBy (Some (1::nat))]) = [1]
   \<and> ngOnDestroy (run [NgOnInit (Some True), SetAnimateBy (Some (1::nat))])
       = Some ((run [NgOnInit (Some True), SetAnimateBy (Some (1::nat))])\<lparr>pending := []\<rparr>)"
  using ngOnDestroy_cancels_only [of "[NgOnInit (Some True), SetAnimateBy (Some (1::nat))]" 0]
  by (simp add: exec)

text \<open>
  \<^verbatim>\<open>ngOnDestroy\<close> releases no entry: after it the entry made for the value is still on
  the stack and its view is still in the view container.
\<close>

theorem ngOnDestroy_releases_nothing:
  "map_option stack (ngOnDestroy (run [NgOnInit (Some True), SetAnimateBy (Some (1::nat))])) = Some [0]
   \<and> map_option views (ngOnDestroy (run [NgOnInit (Some True), SetAnimateBy (Some (1::nat))])) = Some [0]"
  by (simp add: exec)

subsection \<open>Retiring the current entry\<close>

lemma js_min_Fin: "js_min (Fin a) (Fin b) = Fin (min a b)"
  by (simp add: min_def)

lemma current_allocated:
  assumes "consistent s" and "current s = Some r"
  shows "r \<in> set (stack s)" and "r < next_ref s"
proof -
  from current_okD [OF consistentD(3) [OF assms(1)] assms(2)] show "r \<in> set (stack s)" by simp
  then show "r < next_ref s" by (rule stack_okD(3) [OF consistentD(1) [OF assms(1)]])
qed

lemma newCurrent_animId_kept: "animId s \<noteq> None \<Longrightarrow> animId (newCurrent x s) \<noteq> None"
  by (simp add: newCurrent_def Let_def scheduleAnimationFrame_animId)


lemma animateBy_retire:
  assumes "consistent s" and "current s = Some r" and "v \<noteq> Some (implicit (heap s r))"
  shows "heap (animateBy v s) r = heap (removeCurrent r s) r"
    and "current (animateBy v s) \<noteq> Some r"
    and "window s \<Longrightarrow> r \<in> set (stack (animateBy v s))"
    and "animId (removeCurrent r s) \<noteq> None \<Longrightarrow> animId (animateBy v s) \<noteq> None"
    and "next_ref s \<le> next_ref (animateBy v s)"
proof -
  note a = current_allocated [OF assms(1,2)]
  have eq: "animateBy v s =
      (case v of None \<Rightarrow> removeCurrent r s | Some x \<Rightarrow> newCurrent x (removeCurrent r s))"
    using assms(2,3) by (simp add: animateBy_unfold)
  show "heap (animateBy v s) r = heap (removeCurrent r s) r"
    using a(2) eq by (cases v) (simp_all add: newCurrent_heap_other)
  show "current (animateBy v s) \<noteq> Some r"
    using a(2) eq by (cases v) simp_all
  show "r \<in> set (stack (animateBy v s))" if "window s"
    using a(1) that eq by (cases v) (simp_all add: removeCurrent_stack)
  show "animId (animateBy v s) \<noteq> None" if "animId (removeCurrent r s) \<noteq> None"
    using that eq by (cases v) (simp_all add: newCurrent_animId_kept)
  show "next_ref s \<le> next_ref (animateBy v s)"
    using eq by (cases v) simp_all
qed






subsection \<open>An entry that is no longer current\<close>

lemma superseded_cong:
  "next_ref t = next_ref s \<Longrightarrow> current t = current s \<Longrightarrow> heap t = heap s \<Longrightarrow>
   stack t = stack s \<Longrightarrow> superseded r t = superseded r s"
  by (simp add: superseded_def)

lemma superseded_newCurrent: "superseded r s \<Longrightarrow> superseded r (newCurrent x s)"
  by (auto simp: superseded_def newCurrent_heap_other)

lemma superseded_removeCurrent:
  assumes "consistent s" and "superseded r s" and "current s = Some cur"
  shows "superseded r (removeCurrent cur s)"
proof -
  from assms(2,3) have ne: "r \<noteq> cur" by (auto simp: superseded_def)
  have "r \<in> set (stack (removeCurrent cur s))"
    if "state (heap s r) = Entering" "r \<in> set (stack s)"
  proof -
    from window_okD(1) [OF consistentD(4) [OF assms(1)] that(2)] that(1) have "window s" by simp
    with that(2) show ?thesis by (simp add: removeCurrent_stack)
  qed
  with assms(2) ne show ?thesis
    by (auto simp: superseded_def removeCurrent_heap_other)
qed

lemma superseded_animateBy:
  assumes "consistent s" and "superseded r s"
  shows "superseded r (animateBy v s)"
  using assms
  by (auto simp: animateBy_unfold superseded_newCurrent superseded_removeCurrent
      split: option.splits)

lemma superseded_doAnimationFrame:
  assumes "consistent s" and "superseded r s"
  shows "superseded r (doAnimationFrame clock s)"
proof -
  note d = stack_okD(1) [OF consistentD(1) [OF assms(1)]]
  from assms(2) have nc: "current s \<noteq> Some r" and al: "r < next_ref s"
    by (simp_all add: superseded_def)
  show ?thesis
  proof (cases "r \<in> set (stack s)")
    case False
    with assms(2) show ?thesis
      by (simp add: superseded_def doAnimationFrame_heap [OF d] doAnimationFrame_stack [OF d])
  next
    case True
    from assms(2) have "state (heap s r) = Entering \<or> state (heap s r) = Leaving"
      by (auto simp: superseded_def)
    then show ?thesis
    proof
      assume "state (heap s r) = Entering"
      with True nc al show ?thesis
        by (simp add: superseded_def doAnimationFrame_heap [OF d] doAnimationFrame_stack [OF d]
            animateEntry_Entering Let_def)
    next
      assume "state (heap s r) = Leaving"
      with True nc al show ?thesis
        by (simp add: superseded_def doAnimationFrame_heap [OF d] doAnimationFrame_stack [OF d]
            animateEntry_Leaving Let_def)
    qed
  qed
qed

lemma superseded_frame:
  assumes "consistent s" and "registered s" and "superseded r s"
  shows "superseded r (frame clock s)"
proof -
  from registered_pending [OF assms(2)] show ?thesis
  proof
    assume "pending s = []"
    with assms(3) show ?thesis by (simp add: frame_cases)
  next
    assume "\<exists>h. pending s = [h]"
    then obtain h where h: "pending s = [h]" ..
    have "consistent (s\<lparr>pending := []\<rparr>)" using assms(1) by (simp add: consistent_pending)
    moreover have "superseded r (s\<lparr>pending := []\<rparr>)"
      using assms(3) by (simp add: superseded_cong [of "s\<lparr>pending := []\<rparr>" s])
    ultimately show ?thesis using h by (simp add: frame_cases superseded_doAnimationFrame)
  qed
qed

lemma superseded_step:
  assumes "consistent s" and "registered s" and "superseded r s"
  shows "superseded r (step ev s)"
proof (cases ev)
  case (NgOnInit w)
  with assms(3) show ?thesis by (simp add: superseded_cong [of "ngOnInit w s" s])
next
  case (SetAnimateBy v)
  with assms show ?thesis by (simp add: superseded_animateBy)
next
  case (SetOptions opts)
  with assms(3) show ?thesis by (simp add: superseded_cong [of "s\<lparr>animateByOptions := opts\<rparr>" s])
next
  case (Frame clock)
  with assms show ?thesis by (simp add: superseded_frame)
next
  case NgOnDestroy
  with assms show ?thesis
    by (simp add: ngOnDestroy_result superseded_cong [of "s\<lparr>pending := []\<rparr>" s])
qed

lemma superseded_fold:
  "consistent s \<Longrightarrow> registered s \<Longrightarrow> superseded r s \<Longrightarrow> superseded r (fold step evs s)"
  by (induction evs arbitrary: s) (simp_all add: invariants_step superseded_step)

lemma superseded_heap_animateBy:
  assumes "superseded r s"
  shows "heap (animateBy v s) r = heap s r"
proof -
  from assms have al: "r \<noteq> next_ref s" and nc: "current s \<noteq> Some r"
    by (simp_all add: superseded_def)
  have 1: "heap (newCurrent x (removeCurrent cur s)) r = heap s r" if "r \<noteq> cur" for x cur
    using al that by (simp add: newCurrent_heap_other removeCurrent_heap_other)
  show ?thesis
    using al nc 1
    by (auto simp: animateBy_unfold newCurrent_heap_other removeCurrent_heap_other
        split: option.splits)
qed

lemma entering_doAnimationFrame:
  assumes "consistent s" and "superseded r s"
  shows "timings (heap (doAnimationFrame clock s) r) = timings (heap s r) \<and>
    (state (heap (doAnimationFrame clock s) r) = Entering \<longrightarrow>
       state (heap s r) = Entering \<and>
       (\<forall>u. startTime (heap s r) = Some u \<longrightarrow>
            startTime (heap (doAnimationFrame clock s) r) = Some u))"
proof -
  note d = stack_okD(1) [OF consistentD(1) [OF assms(1)]]
  from assms(2) have nc: "current s \<noteq> Some r" by (simp add: superseded_def)
  show ?thesis
  proof (cases "r \<in> set (stack s)")
    case False
    then show ?thesis by (simp add: doAnimationFrame_heap [OF d])
  next
    case True
    from assms(2) have "state (heap s r) = Entering \<or> state (heap s r) = Leaving"
      by (auto simp: superseded_def)
    then show ?thesis
    proof
      assume "state (heap s r) = Entering"
      with True nc show ?thesis
        by (auto simp: doAnimationFrame_heap [OF d] animateEntry_Entering Let_def)
    next
      assume "state (heap s r) = Leaving"
      with True nc show ?thesis
        by (simp add: doAnimationFrame_heap [OF d] animateEntry_Leaving Let_def)
    qed
  qed
qed

lemma entering_step:
  assumes "consistent s" and "registered s" and "superseded r s"
  shows "timings (heap (step ev s) r) = timings (heap s r) \<and>
    (state (heap (step ev s) r) = Entering \<longrightarrow>
       state (heap s r) = Entering \<and>
       (\<forall>u. startTime (heap s r) = Some u \<longrightarrow> startTime (heap (step ev s) r) = Some u))"
proof (cases ev)
  case (NgOnInit w)
  then show ?thesis by simp
next
  case (SetAnimateBy v)
  with assms(3) show ?thesis by (simp add: superseded_heap_animateBy)
next
  case (SetOptions opts)
  then show ?thesis by simp
next
  case (Frame clock)
  from registered_pending [OF assms(2)] show ?thesis
  proof
    assume "pending s = []"
    with Frame show ?thesis by (simp add: frame_cases)
  next
    assume "\<exists>h. pending s = [h]"
    then obtain h where h: "pending s = [h]" ..
    have "consistent (s\<lparr>pending := []\<rparr>)" using assms(1) by (simp add: consistent_pending)
    moreover have "superseded r (s\<lparr>pending := []\<rparr>)"
      using assms(3) by (simp add: superseded_cong [of "s\<lparr>pending := []\<rparr>" s])
    ultimately show ?thesis
      using entering_doAnimationFrame [of "s\<lparr>pending := []\<rparr>" r "Fin clock"] Frame h
      by (simp add: frame_cases)
  qed
next
  case NgOnDestroy
  with assms show ?thesis by (simp add: ngOnDestroy_result)
qed

lemma entering_fold:
  "consistent s \<Longrightarrow> registered s \<Longrightarrow> superseded r s \<Longrightarrow>
   timings (heap (fold step evs s) r) = timings (heap s r) \<and>
   (state (heap (fold step evs s) r) = Entering \<longrightarrow>
      state (heap s r) = Entering \<and>
      (\<forall>u. startTime (heap s r) = Some u \<longrightarrow> startTime (heap (fold step evs s) r) = Some u))"
proof (induction evs arbitrary: s)
  case Nil
  then show ?case by simp
next
  case (Cons ev evs)
  from invariants_step [OF Cons.prems(1,2)]
  have c: "consistent (step ev s)" and g: "registered (step ev s)" by simp_all
  have sup: "superseded r (step ev s)" using Cons.prems by (rule superseded_step)
  from Cons.IH [OF c g sup] entering_step [OF Cons.prems, of ev]
  show ?case by simp
qed

lemma enter_complete:
  "0 < a \<Longrightarrow> u + a \<le> clock \<Longrightarrow> js_min (Fin 1) (Fin ((clock - u) / a)) = Fin 1"
  by (simp add: js_min_Fin min_def field_simps)

lemma superseded_step_quiet:
  assumes "consistent s" and "registered s" and "superseded r s" and "\<not> is_Frame ev"
  shows "heap (step ev s) r = heap s r"
proof (cases ev)
  case (NgOnInit w)
  then show ?thesis by simp
next
  case (SetAnimateBy v)
  with assms(3) show ?thesis by (simp add: superseded_heap_animateBy)
next
  case (SetOptions opts)
  then show ?thesis by simp
next
  case (Frame clock)
  with assms(4) show ?thesis by simp
next
  case NgOnDestroy
  with assms(1,2) show ?thesis by (simp add: ngOnDestroy_result)
qed

lemma entering_to_Leaving:
  assumes "consistent s" and "registered s" and "superseded r s"
    and "state (heap s r) = Entering" and "state (heap (step ev s) r) = Leaving"
  shows "existence (heap (step ev s) r) = Fin 1 \<and> startTime (heap (step ev s) r) = None"
proof (cases "is_Frame ev")
  case False
  from superseded_step_quiet [OF assms(1-3) False] assms(4,5) show ?thesis by simp
next
  case True
  then obtain clock where ev: "ev = Frame clock" by (cases ev) simp_all
  from registered_pending [OF assms(2)] show ?thesis
  proof
    assume "pending s = []"
    with ev assms(4,5) show ?thesis by (simp add: frame_cases)
  next
    assume "\<exists>h. pending s = [h]"
    then obtain h where h: "pending s = [h]" ..
    let ?s = "s\<lparr>pending := []\<rparr>"
    have c: "consistent ?s" using assms(1) by (simp add: consistent_pending)
    note d = stack_okD(1) [OF consistentD(1) [OF c]]
    from assms(3,4) have rs: "r \<in> set (stack ?s)" and nc: "current ?s \<noteq> Some r"
      by (auto simp: superseded_def)
    have st: "heap (step ev s) r = fst (animateEntry (Fin clock) False (heap s r))"
      using ev h rs nc by (simp add: frame_cases doAnimationFrame_heap [OF d])
    from assms(4,5) show ?thesis
      unfolding st
      by (simp add: animateEntry_Entering Let_def js_ge_def js_min_one_ge split: if_splits)
  qed
qed

text \<open>
  \<^bold>\<open>C3.\<close> When \<open>symmetric\<close> is off and the current entry, in state \<open>Entering\<close>, is
  displaced or cleared by the setter, its context is left as it is (state and start time
  included) and it stays on the stack, no longer current. Whatever happens afterwards
  (the events \<open>later\<close>), it is never current again, is never in a state other than
  \<open>Entering\<close> and \<open>Leaving\<close>, and keeps its timings. As long as it is entering it is
  on the stack and has the start time it had when it was retired, if it had one. A frame
  at time \<open>clock\<close> then computes its existence from that start time (from \<open>clock\<close>
  when there is none yet), as \<open>min 1 ((clock - start) / enter)\<close>, keeps the entry on
  the stack and requests another frame; the entry either stays entering, with an
  existence that is not 1 or more and with that start time, or is put in state
  \<open>Leaving\<close> with existence exactly 1 and the start time cleared. With a positive
  enter duration, the second case is the one of every frame that comes \<open>enter\<close> or more
  after the start time. Further events (\<open>later'\<close>) never bring the entry back to
  \<open>Entering\<close>, and leave the start time of an entering entry as it is. An event
  \<open>ev\<close> that is not a frame leaves the context as it is, and an event that takes the
  entry from \<open>Entering\<close> to \<open>Leaving\<close> does so at existence exactly 1, with the
  start time cleared: the entry does not leave before it is fully present.
\<close>

theorem retire_Entering_asymmetric:
  assumes "current (run evs) = Some r" and "state (heap (run evs) r) = Entering"
    and "\<not> symmetric (animateByOptions (run evs))"
    and "v \<noteq> Some (implicit (heap (run evs) r))"
  shows "heap (animateBy v (run evs)) r = heap (run evs) r
    \<and> r \<in> set (stack (animateBy v (run evs)))
    \<and> current (animateBy v (run evs)) \<noteq> Some r
    \<and> current (fold step later (animateBy v (run evs))) \<noteq> Some r
    \<and> (state (heap (fold step later (animateBy v (run evs))) r) = Entering \<or>
        state (heap (fold step later (animateBy v (run evs))) r) = Leaving)
    \<and> timings (heap (fold step later (animateBy v (run evs))) r) = timings (heap (run evs) r)
    \<and> (state (heap (fold step later (animateBy v (run evs))) r) = Entering \<longrightarrow>
         r \<in> set (stack (fold step later (animateBy v (run evs))))
       \<and> (\<forall>u. startTime (heap (run evs) r) = Some u \<longrightarrow>
            startTime (heap (fold step later (animateBy v (run evs))) r) = Some u)
       \<and> r \<in> set (stack (doAnimationFrame (Fin clock) (fold step later (animateBy v (run evs)))))
       \<and> animId (doAnimationFrame (Fin clock) (fold step later (animateBy v (run evs)))) \<noteq> None
       \<and> existence (heap (doAnimationFrame (Fin clock) (fold step later (animateBy v (run evs)))) r)
           = js_min (Fin 1) (js_div
               (js_sub (Fin clock)
                 (case startTime (heap (fold step later (animateBy v (run evs))) r) of
                    None \<Rightarrow> Fin clock | Some u \<Rightarrow> u))
               (enter (timings (heap (run evs) r))))
       \<and> ((state (heap (doAnimationFrame (Fin clock) (fold step later (animateBy v (run evs)))) r)
              = Entering
            \<and> \<not> js_ge (existence
                 (heap (doAnimationFrame (Fin clock) (fold step later (animateBy v (run evs)))) r))
                 (Fin 1)
            \<and> startTime (heap (doAnimationFrame (Fin clock) (fold step later (animateBy v (run evs)))) r)
              = Some (case startTime (heap (fold step later (animateBy v (run evs))) r) of
                    None \<Rightarrow> Fin clock | Some u \<Rightarrow> u))
          \<or> (state (heap (doAnimationFrame (Fin clock) (fold step later (animateBy v (run evs)))) r)
              = Leaving
            \<and> existence (heap (doAnimationFrame (Fin clock) (fold step later (animateBy v (run evs)))) r)
              = Fin 1
            \<and> startTime (heap (doAnimationFrame (Fin clock) (fold step later (animateBy v (run evs)))) r)
              = None))
       \<and> (\<forall>a u. enter (timings (heap (run evs) r)) = Fin a \<and> 0 < a
              \<and> startTime (heap (fold step later (animateBy v (run evs))) r) = Some (Fin u)
              \<and> u + a \<le> clock \<longrightarrow>
            state (heap (doAnimationFrame (Fin clock) (fold step later (animateBy v (run evs)))) r)
              = Leaving))
    \<and> (state (heap (fold step later' (fold step later (animateBy v (run evs)))) r) = Entering \<longrightarrow>
         state (heap (fold step later (animateBy v (run evs))) r) = Entering
       \<and> (\<forall>u. startTime (heap (fold step later (animateBy v (run evs))) r) = Some u \<longrightarrow>
            startTime (heap (fold step later' (fold step later (animateBy v (run evs)))) r) = Some u))
    \<and> (\<not> is_Frame ev \<longrightarrow>
         heap (step ev (fold step later (animateBy v (run evs)))) r
         = heap (fold step later (animateBy v (run evs))) r)
    \<and> (state (heap (fold step later (animateBy v (run evs))) r) = Entering
         \<and> state (heap (step ev (fold step later (animateBy v (run evs)))) r) = Leaving \<longrightarrow>
         existence (heap (step ev (fold step later (animateBy v (run evs)))) r) = Fin 1
       \<and> startTime (heap (step ev (fold step later (animateBy v (run evs)))) r) = None)"
proof -
  let ?s = "run evs"
  let ?s1 = "animateBy v ?s"
  let ?t = "fold step later ?s1"
  let ?u = "doAnimationFrame (Fin clock) ?t"
  let ?w = "fold step later' ?t"
  have c: "consistent ?s" by (rule consistent_run)
  have c1: "consistent ?s1" using c by (rule consistent_animateBy)
  have g1: "registered ?s1" using registered_run by (rule registered_animateBy)
  have ct: "consistent ?t" and gt: "registered ?t" using invariants_fold [OF c1 g1] by simp_all
  note a = current_allocated [OF c assms(1)]
  note ret = animateBy_retire [OF c assms(1,4)]
  have w: "window ?s"
    using window_okD(1) [OF consistentD(4) [OF c] a(1)] assms(2) by simp
  have h1: "heap ?s1 r = heap ?s r"
    using assms(2,3) by (simp add: ret(1) removeCurrent_heap)
  have r1: "r \<in> set (stack ?s1)" using w by (rule ret(3))
  have sup1: "superseded r ?s1"
    using a(2) ret(2,5) r1 assms(2) by (simp add: superseded_def h1)
  then have sup: "superseded r ?t" by (rule superseded_fold [OF c1 g1])
  from sup have nc: "current ?t \<noteq> Some r"
    and st: "state (heap ?t r) = Entering \<or> state (heap ?t r) = Leaving"
    by (auto simp: superseded_def)
  note k1 = entering_fold [OF c1 g1 sup1, of later, unfolded h1]
  note k2 = entering_fold [OF ct gt sup, of later']
  from k1 have tm: "timings (heap ?t r) = timings (heap ?s r)" by simp
  let ?st = "case startTime (heap ?t r) of None \<Rightarrow> Fin clock | Some u \<Rightarrow> u"
  let ?e = "js_min (Fin 1) (js_div (js_sub (Fin clock) ?st) (enter (timings (heap ?s r))))"
  have tick: "r \<in> set (stack ?t)
      \<and> (\<forall>u. startTime (heap ?s r) = Some u \<longrightarrow> startTime (heap ?t r) = Some u)
      \<and> r \<in> set (stack ?u) \<and> animId ?u \<noteq> None
      \<and> existence (heap ?u r) = ?e
      \<and> ((state (heap ?u r) = Entering \<and> \<not> js_ge (existence (heap ?u r)) (Fin 1)
            \<and> startTime (heap ?u r) = Some ?st) \<or>
         (state (heap ?u r) = Leaving \<and> existence (heap ?u r) = Fin 1 \<and> startTime (heap ?u r) = None))
      \<and> (\<forall>a u. enter (timings (heap ?s r)) = Fin a \<and> 0 < a
              \<and> startTime (heap ?t r) = Some (Fin u) \<and> u + a \<le> clock \<longrightarrow>
            state (heap ?u r) = Leaving)"
    if e: "state (heap ?t r) = Entering"
  proof -
    note d = stack_okD(1) [OF consistentD(1) [OF ct]]
    from sup e have rt: "r \<in> set (stack ?t)" by (auto simp: superseded_def)
    from window_okD(1) [OF consistentD(4) [OF ct] rt] e have wt: "window ?t" by simp
    from k1 e have kept: "\<forall>u. startTime (heap ?s r) = Some u \<longrightarrow> startTime (heap ?t r) = Some u"
      by simp
    let ?ae = "animateEntry (Fin clock) (current ?t = Some r) (heap ?t r)"
    have again: "snd (snd ?ae)" and keep: "\<not> fst (snd ?ae)"
      using e nc by (simp_all add: animateEntry_Entering Let_def)
    have ru: "r \<in> set (stack ?u)"
      using rt keep by (simp add: doAnimationFrame_stack [OF d])
    have an: "animId ?u \<noteq> None"
      using rt again wt by (auto simp: doAnimationFrame_animId [OF d])
    have hu: "heap ?u r = fst ?ae"
      using rt by (simp add: doAnimationFrame_heap [OF d])
    have ex: "existence (fst ?ae) = ?e"
      using e by (simp add: animateEntry_Entering Let_def tm)
    have dis: "(state (fst ?ae) = Entering \<and> \<not> js_ge (existence (fst ?ae)) (Fin 1)
          \<and> startTime (fst ?ae) = Some ?st) \<or>
       (state (fst ?ae) = Leaving \<and> existence (fst ?ae) = Fin 1 \<and> startTime (fst ?ae) = None)"
      using e nc
      by (simp add: animateEntry_Entering Let_def) (simp add: js_ge_def js_min_one_ge)
    have fin: "state (fst ?ae) = Leaving"
      if "enter (timings (heap ?s r)) = Fin a" "0 < a" "startTime (heap ?t r) = Some (Fin u)"
        "u + a \<le> clock" for a u
      using e nc that
      by (simp add: animateEntry_Entering Let_def tm enter_complete js_ge_def)
    from rt kept ru an hu ex dis fin show ?thesis by simp
  qed
  have quiet: "heap (step ev ?t) r = heap ?t r" if "\<not> is_Frame ev"
    using ct gt sup that by (rule superseded_step_quiet)
  have full: "existence (heap (step ev ?t) r) = Fin 1 \<and> startTime (heap (step ev ?t) r) = None"
    if "state (heap ?t r) = Entering" "state (heap (step ev ?t) r) = Leaving"
    using ct gt sup that by (rule entering_to_Leaving)
  from h1 r1 ret(2) nc st tm tick k2 quiet full show ?thesis by blast
qed

theorem retire_Entering_asymmetric_witness:
  "current (run [NgOnInit (Some True), SetAnimateBy (Some (1::nat)), Frame 0, Frame 400]) = Some 0
   \<and> state (heap (run [NgOnInit (Some True), SetAnimateBy (Some (1::nat)), Frame 0, Frame 400]) 0) = Entering
   \<and> \<not> symmetric (animateByOptions (run [NgOnInit (Some True), SetAnimateBy (Some (1::nat)), Frame 0, Frame 400]))
   \<and> None \<noteq> Some (implicit (heap (run [NgOnInit (Some True), SetAnimateBy (Some (1::nat)), Frame 0, Frame 400]) 0))
   \<and> startTime (heap (run [NgOnInit (Some True), SetAnimateBy (Some (1::nat)), Frame 0, Frame 400]) 0)
      = Some (Fin 0)
   \<and> enter (timings (heap (run [NgOnInit (Some True), SetAnimateBy (Some (1::nat)), Frame 0, Frame 400]) 0))
      = Fin 1000
   \<and> state (heap (fold step [Frame 700, SetAnimateBy (Some 1)]
        (animateBy None (run [NgOnInit (Some True), SetAnimateBy (Some (1::nat)), Frame 0, Frame 400]))) 0)
      = Entering
   \<and> startTime (heap (fold step [Frame 700, SetAnimateBy (Some 1)]
        (animateBy None (run [NgOnInit (Some True), SetAnimateBy (Some (1::nat)), Frame 0, Frame 400]))) 0)
      = Some (Fin 0)
   \<and> existence (heap (fold step [Frame 700, SetAnimateBy (Some 1)]
        (animateBy None (run [NgOnInit (Some True), SetAnimateBy (Some (1::nat)), Frame 0, Frame 400]))) 0)
      = Fin (7 / 10)
   \<and> state (heap (fold step [Frame 900] (fold step [Frame 700, SetAnimateBy (Some 1)]
        (animateBy None (run [NgOnInit (Some True), SetAnimateBy (Some (1::nat)), Frame 0, Frame 400])))) 0)
      = Entering
   \<and> startTime (heap (fold step [Frame 900] (fold step [Frame 700, SetAnimateBy (Some 1)]
        (animateBy None (run [NgOnInit (Some True), SetAnimateBy (Some (1::nat)), Frame 0, Frame 400])))) 0)
      = Some (Fin 0)
   \<and> state (heap (doAnimationFrame (Fin 1000) (fold step [Frame 700, SetAnimateBy (Some 1)]
        (animateBy None (run [NgOnInit (Some True), SetAnimateBy (Some (1::nat)), Frame 0, Frame 400])))) 0)
      = Leaving
   \<and> existence (heap (doAnimationFrame (Fin 1000) (fold step [Frame 700, SetAnimateBy (Some 1)]
        (animateBy None (run [NgOnInit (Some True), SetAnimateBy (Some (1::nat)), Frame 0, Frame 400])))) 0)
      = Fin 1
   \<and> startTime (heap (doAnimationFrame (Fin 1000) (fold step [Frame 700, SetAnimateBy (Some 1)]
        (animateBy None (run [NgOnInit (Some True), SetAnimateBy (Some (1::nat)), Frame 0, Frame 400])))) 0)
      = None
   \<and> state (heap (step (Frame 1000) (fold step [Frame 700, SetAnimateBy (Some 1)]
        (animateBy None (run [NgOnInit (Some True), SetAnimateBy (Some (1::nat)), Frame 0, Frame 400])))) 0)
      = Leaving
   \<and> existence (heap (step (Frame 1000) (fold step [Frame 700, SetAnimateBy (Some 1)]
        (animateBy None (run [NgOnInit (Some True), SetAnimateBy (Some (1::nat)), Frame 0, Frame 400])))) 0)
      = Fin 1"
  using retire_Entering_asymmetric [of "[NgOnInit (Some True), SetAnimateBy (Some (1::nat)), Frame 0, Frame 400]"
      0 None "[Frame 700, SetAnimateBy (Some 1)]" 1000 "[Frame 900]" "Frame 1000"]
  by (simp add: exec)

subsection \<open>Reversal and durations of zero\<close>

lemma removeCurrent_animId_Reverse:
  "window s \<Longrightarrow> symmetric (animateByOptions s) \<Longrightarrow> state (heap s r) = Entering \<Longrightarrow>
   animId (removeCurrent r s) \<noteq> None"
  by (simp add: removeCurrent_def Let_def scheduleAnimationFrame_animId)

lemma back_dated: "l \<noteq> 0 \<Longrightarrow> (clock - (clock - l * (1 - e))) / l = 1 - (e::real)"
  by simp

lemma halvings_numeral:
  "halvings (numeral k) a = (if a < 2 then 0 else 1 + halvings (pred_numeral k) (a / 2))"
  by (simp add: numeral_eq_Suc)

lemma doublings_numeral:
  "doublings (numeral k) a = (if 1 \<le> a then 0 else 1 + doublings (pred_numeral k) (2 * a))"
  by (simp add: numeral_eq_Suc)

lemmas double_eval =
  round_double_def exponent_def nearest_even_def halvings_numeral doublings_numeral
  dbl_sub_def dbl_mul_def dbl_div_def Let_def

lemma round_double_examples:
  "round_double 0 = Fin 0" "round_double 1 = Fin 1" "round_double 1000 = Fin 1000"
  "round_double (- 784) = Fin (- 784)"
  "round_double (1 / 10) = Fin (3602879701896397 / 36028797018963968)"
  "round_double (9 / 10) = Fin (8106479329266893 / 9007199254740992)"
  "round_double (1 + 1 / 2 ^ 53) = Fin 1"
  "round_double (1 + 3 / 2 ^ 53) = Fin (1 + 1 / 2 ^ 51)"
  by (simp_all add: double_eval)

lemma animateEntry_dbl_Reverse:
  "state ctx = Reverse \<Longrightarrow>
   animateEntry_dbl clock b ctx =
     (let t = dbl_sub clock (dbl_mul (leave (timings ctx)) (dbl_sub (Fin 1) (existence ctx)));
          e = dbl_sub (Fin 1) (js_min (Fin 1) (dbl_div (dbl_sub clock t) (leave (timings ctx))))
      in (ctx\<lparr>state := Leaving, existence := e, startTime := Some t\<rparr>,
          js_le e (Fin 0), \<not> js_le e (Fin 0)))"
  by (cases "startTime ctx") (simp_all add: animateEntry_dbl_def Let_def reverseAnimation_dbl_def)

lemma entering_tick_double:
  "animateEntry_dbl (Fin 100) True
     \<lparr>implicit = x, state = Entering, existence = Fin 0,
      timings = \<lparr>enter = Fin 1000, leave = Fin 1000\<rparr>, startTime = Some (Fin 0)\<rparr>
   = (\<lparr>implicit = x, state = Entering, existence = Fin (3602879701896397 / 36028797018963968),
       timings = \<lparr>enter = Fin 1000, leave = Fin 1000\<rparr>, startTime = Some (Fin 0)\<rparr>, False, True)"
  by (simp add: animateEntry_dbl_def double_eval js_ge_def)

lemma reverse_tick_double:
  "animateEntry_dbl (Fin 116) False
     \<lparr>implicit = x, state = Reverse, existence = Fin (3602879701896397 / 36028797018963968),
      timings = \<lparr>enter = Fin 1000, leave = Fin 1000\<rparr>, startTime = Some (Fin 0)\<rparr>
   = (\<lparr>implicit = x, state = Leaving, existence = Fin (900719925474099 / 9007199254740992),
       timings = \<lparr>enter = Fin 1000, leave = Fin 1000\<rparr>, startTime = Some (Fin (- 784))\<rparr>, False, True)"
  by (simp add: animateEntry_dbl_def reverseAnimation_dbl_def double_eval)

text \<open>
  The error of one rounding. \<open>nearest_even\<close> is within 1/2 of its argument, and the
  exponent found for \<open>x\<close> is -1022 or such that \<open>2 powi exponent x \<le> \<bar>x\<bar>\<close>; so
  a number of magnitude at most \<open>2 ^ 1000\<close> is rounded to a finite double within
  \<open>(\<bar>x\<bar> + 1 / 2 ^ 1022) / 2 ^ 53\<close> of it.
\<close>

lemma nearest_even_error: "\<bar>of_int (nearest_even y) - y\<bar> \<le> 1 / 2"
proof -
  define f where "f = \<lfloor>y\<rfloor>"
  have 1: "of_int f \<le> y" "y < of_int f + 1" unfolding f_def by linarith+
  have 2: "nearest_even y = f \<and> y - of_int f \<le> 1 / 2 \<or>
      nearest_even y = f + 1 \<and> 1 / 2 \<le> y - of_int f"
    unfolding nearest_even_def Let_def f_def [symmetric] by auto
  from 1 2 show ?thesis by (auto simp: abs_if)
qed

lemma halvings_bounds: "0 \<le> halvings n a \<and> halvings n a \<le> int n"
  by (induction n arbitrary: a) auto

lemma halvings_le: "1 \<le> a \<Longrightarrow> 2 powi (halvings n a) \<le> a"
proof (induction n arbitrary: a)
  case 0
  then show ?case by simp
next
  case (Suc n)
  show ?case
  proof (cases "a < 2")
    case True
    with Suc.prems show ?thesis by simp
  next
    case False
    then have "1 \<le> a / 2" by simp
    from Suc.IH [OF this] have "2 powi (halvings n (a / 2)) \<le> a / 2" .
    moreover have "0 \<le> halvings n (a / 2)" using halvings_bounds by simp
    ultimately show ?thesis using False
      by (simp add: power_int_add)
  qed
qed

lemma doublings_bounds: "0 \<le> doublings n a \<and> doublings n a \<le> int n"
  by (induction n arbitrary: a) auto

lemma doublings_le:
  "a < 1 \<Longrightarrow> doublings n a = int n \<or> 2 powi (- doublings n a) \<le> a"
proof (induction n arbitrary: a)
  case 0
  then show ?case by simp
next
  case (Suc n)
  show ?case
  proof (cases "2 * a < 1")
    case False
    then have "doublings n (2 * a) = 0" by (cases n) simp_all
    with Suc.prems False show ?thesis by (simp add: power_int_minus)
  next
    case True
    from Suc.IH [OF True] show ?thesis
    proof
      assume "doublings n (2 * a) = int n"
      with Suc.prems show ?thesis by simp
    next
      assume "2 powi (- doublings n (2 * a)) \<le> 2 * a"
      with Suc.prems show ?thesis
        by (simp add: power_int_diff power_int_minus field_simps)
    qed
  qed
qed

lemma exponent_bounds: "- 1022 \<le> exponent x \<and> exponent x \<le> 1023"
  using halvings_bounds [of 1023 "\<bar>x\<bar>"] doublings_bounds [of 1022 "\<bar>x\<bar>"]
  by (auto simp: exponent_def)

lemma exponent_le: "exponent x = - 1022 \<or> 2 powi (exponent x) \<le> \<bar>x\<bar>"
proof (cases "1 \<le> \<bar>x\<bar>")
  case True
  with halvings_le [OF True, of 1023] show ?thesis by (simp add: exponent_def)
next
  case False
  then have "\<bar>x\<bar> < 1" by simp
  from doublings_le [OF this, of 1022] False show ?thesis by (auto simp: exponent_def)
qed


lemma round_double_error:
  assumes "\<bar>x\<bar> \<le> 2 ^ 1000"
  shows "\<exists>y. round_double x = Fin y \<and> \<bar>y - x\<bar> \<le> (\<bar>x\<bar> + 1 / 2 ^ 1022) / 2 ^ 53"
proof -
  define u :: real where "u = 2 powi (exponent x - 52)"
  define y where "y = of_int (nearest_even (x / u)) * u"
  have u: "0 < u" by (simp add: u_def)
  have "y - x = (of_int (nearest_even (x / u)) - x / u) * u"
    using u by (simp add: y_def field_simps)
  then have "\<bar>y - x\<bar> = \<bar>of_int (nearest_even (x / u)) - x / u\<bar> * u"
    using u by (simp add: abs_mult)
  also have "\<dots> \<le> (1 / 2) * u"
    using nearest_even_error [of "x / u"] u by (intro mult_right_mono) simp_all
  finally have 1: "\<bar>y - x\<bar> \<le> u / 2" by simp
  have 2: "u / 2 = 2 powi (exponent x) / 2 ^ 53"
    by (simp add: u_def power_int_diff)
  have 3: "2 powi (exponent x) \<le> \<bar>x\<bar> + 1 / 2 ^ 1022"
  proof -
    from exponent_le [of x] show ?thesis
    proof
      assume "exponent x = - 1022"
      then have "(2::real) powi (exponent x) = 1 / 2 ^ 1022"
        by (simp add: power_int_minus field_simps)
      then show ?thesis by simp
    next
      assume "2 powi (exponent x) \<le> \<bar>x\<bar>"
      then show ?thesis by (simp add: add_increasing2)
    qed
  qed
  from 1 2 3 have err: "\<bar>y - x\<bar> \<le> (\<bar>x\<bar> + 1 / 2 ^ 1022) / 2 ^ 53"
    by (simp add: divide_right_mono)
  have "(1::real) / 2 ^ 1022 \<le> 1" by (simp add: field_simps)
  moreover have "(1::real) \<le> 2 ^ 1000" by simp
  ultimately have "\<bar>x\<bar> + 1 / 2 ^ 1022 \<le> 2 * 2 ^ 1000" using assms by linarith
  then have "(\<bar>x\<bar> + 1 / 2 ^ 1022) / 2 ^ 53 \<le> (2 * 2 ^ 1000) / 2 ^ 53"
    by (intro divide_right_mono) simp_all
  also have "\<dots> \<le> (2::real) ^ 1000"
    by (simp add: field_simps)
  finally have "\<bar>y - x\<bar> \<le> 2 ^ 1000" using err by linarith
  with assms have "\<bar>y\<bar> \<le> 2 * 2 ^ 1000" by linarith
  also have "\<dots> < (2::real) ^ 1024" by simp
  finally have "\<bar>y\<bar> < 2 ^ 1024" .
  then have "round_double x = Fin y"
    unfolding round_double_def Let_def u_def [symmetric] y_def [symmetric] by (auto simp: abs_if split: if_splits)
  with err show ?thesis by blast
qed

lemma round_double_near:
  assumes "\<bar>x\<bar> \<le> 2 ^ 1000"
  obtains y where "round_double x = Fin y" and "9007199254740992 * \<bar>y - x\<bar> \<le> \<bar>x\<bar> + 1"
proof -
  from round_double_error [OF assms] obtain y
    where y: "round_double x = Fin y" "\<bar>y - x\<bar> \<le> (\<bar>x\<bar> + 1 / 2 ^ 1022) / 2 ^ 53" by blast
  have "(1::real) / 2 ^ 1022 \<le> 1" by (simp add: field_simps)
  then have "(\<bar>x\<bar> + 1 / 2 ^ 1022) / 2 ^ 53 \<le> (\<bar>x\<bar> + 1) / 2 ^ 53"
    by (intro divide_right_mono) simp_all
  with y(2) have "\<bar>y - x\<bar> \<le> (\<bar>x\<bar> + 1) / 2 ^ 53" by argo
  then have "9007199254740992 * \<bar>y - x\<bar> \<le> \<bar>x\<bar> + 1" by (simp add: field_simps)
  with y(1) show ?thesis by (rule that)
qed

lemma two_power_bound: "(2::real) ^ 500 * 40 \<le> 2 ^ 1000"
proof -
  have "(40::real) \<le> 2 ^ 500" 
    using power_increasing [of 6 500 "2::real"] by simp
  then have "(2::real) ^ 500 * 40 \<le> 2 ^ 500 * 2 ^ 500" by (intro mult_left_mono) simp_all
  also have "\<dots> = (2::real) ^ 1000" by (simp add: power_add [symmetric])
  finally show ?thesis .
qed

text \<open>
  The error of the reversing frame in double arithmetic: the five roundings of
  \<open>clock - leave * (1 - e)\<close>, \<open>clock - startTime\<close>, the quotient by \<open>leave\<close> and
  \<open>1 - min 1 q\<close> add up to at most \<open>(72 + 8 * (\<bar>clock\<bar> / leave)) / 2 ^ 53\<close>, for a
  leave duration of 1 or more.
\<close>

lemma reverse_error:
  assumes e: "0 \<le> e" "e \<le> 1" and l: "1 \<le> l" "l \<le> 2 ^ 500" and c: "\<bar>c\<bar> \<le> 2 ^ 500"
  shows "\<exists>t e'. dbl_sub (Fin c) (dbl_mul (Fin l) (dbl_sub (Fin 1) (Fin e))) = Fin t
     \<and> dbl_sub (Fin 1) (js_min (Fin 1) (dbl_div (dbl_sub (Fin c) (Fin t)) (Fin l))) = Fin e'
     \<and> \<bar>e' - e\<bar> \<le> (72 + 8 * (\<bar>c\<bar> / l)) / 2 ^ 53"
proof -
  define K where "K = \<bar>c\<bar> / l"
  have "1 * \<bar>c\<bar> \<le> l * \<bar>c\<bar>" using l by (intro mult_right_mono) simp_all
  then have K: "0 \<le> K" "K \<le> \<bar>c\<bar>" using l by (simp_all add: K_def field_simps)
  note B = two_power_bound
  have P: "(1::real) \<le> 2 ^ 500" by simp
  have e0: "\<bar>1 - e\<bar> \<le> 1" using e by argo
  then have "\<bar>1 - e\<bar> \<le> 2 ^ 1000" using B P by argo
  then obtain a where a: "round_double (1 - e) = Fin a"
      "9007199254740992 * \<bar>a - (1 - e)\<bar> \<le> \<bar>1 - e\<bar> + 1"
    by (rule round_double_near)
  have a1: "9007199254740992 * \<bar>a - (1 - e)\<bar> \<le> 2" using a(2) e0 by argo
  have a2: "\<bar>a\<bar> \<le> 2" using a1 e by argo
  have la: "\<bar>l * a\<bar> \<le> 2 * l"
  proof -
    have "\<bar>l * a\<bar> = l * \<bar>a\<bar>" using l by (simp add: abs_mult)
    also have "\<dots> \<le> l * 2" using a2 l by (intro mult_left_mono) simp_all
    finally show ?thesis by simp
  qed
  then have "\<bar>l * a\<bar> \<le> 2 ^ 1000" using l B P by argo
  then obtain b where b: "round_double (l * a) = Fin b"
      "9007199254740992 * \<bar>b - l * a\<bar> \<le> \<bar>l * a\<bar> + 1"
    by (rule round_double_near)
  have b1: "9007199254740992 * \<bar>b - l * a\<bar> \<le> 3 * l" using b(2) la l by argo
  have b2: "\<bar>b\<bar> \<le> 3 * l" using b1 la l by argo
  have "\<bar>c - b\<bar> \<le> 2 ^ 1000" using b2 c l B P by argo
  then obtain t where t: "round_double (c - b) = Fin t"
      "9007199254740992 * \<bar>t - (c - b)\<bar> \<le> \<bar>c - b\<bar> + 1"
    by (rule round_double_near)
  have t1: "9007199254740992 * \<bar>t - (c - b)\<bar> \<le> \<bar>c\<bar> + 4 * l" using t(2) b2 l by argo
  have ct: "\<bar>c - t\<bar> \<le> \<bar>c\<bar> + 7 * l" using t1 b2 l by argo
  then have "\<bar>c - t\<bar> \<le> 2 ^ 1000" using c l B P by argo
  then obtain lc where lc: "round_double (c - t) = Fin lc"
      "9007199254740992 * \<bar>lc - (c - t)\<bar> \<le> \<bar>c - t\<bar> + 1"
    by (rule round_double_near)
  have lc1: "9007199254740992 * \<bar>lc - (c - t)\<bar> \<le> \<bar>c\<bar> + 8 * l" using lc(2) ct l by argo
  have lc2: "9007199254740992 * \<bar>lc - l * a\<bar> \<le> 2 * \<bar>c\<bar> + 15 * l" using lc1 t1 b1 by argo
  have d1: "9007199254740992 * \<bar>lc / l - a\<bar> \<le> 2 * K + 15"
  proof -
    have "lc / l - a = (lc - l * a) / l" using l by (simp add: field_simps)
    then have "9007199254740992 * \<bar>lc / l - a\<bar> = (9007199254740992 * \<bar>lc - l * a\<bar>) / l"
      using l by simp
    also have "\<dots> \<le> (2 * \<bar>c\<bar> + 15 * l) / l"
      using lc2 l by (intro divide_right_mono) simp_all
    also have "\<dots> = 2 * K + 15" using l by (simp add: K_def field_simps)
    finally show ?thesis .
  qed
  have d2: "\<bar>lc / l\<bar> \<le> 2 * K + 17" using d1 a2 K(1) by argo
  have "\<bar>lc / l\<bar> \<le> 2 ^ 1000" using d2 K(2) c B P by argo
  then obtain q where q: "round_double (lc / l) = Fin q"
      "9007199254740992 * \<bar>q - lc / l\<bar> \<le> \<bar>lc / l\<bar> + 1"
    by (rule round_double_near)
  have q1: "9007199254740992 * \<bar>q - lc / l\<bar> \<le> 2 * K + 18" using q(2) d2 by argo
  have q2: "9007199254740992 * \<bar>q - (1 - e)\<bar> \<le> 4 * K + 35" using q1 d1 a1 by argo
  have m1: "9007199254740992 * \<bar>min 1 q - (1 - e)\<bar> \<le> 4 * K + 35"
  proof (cases "1 \<le> q")
    case True
    then have "min 1 q = 1" by simp
    with q2 True e show ?thesis by simp
  next
    case False
    then have "min 1 q = q" by simp
    with q2 show ?thesis by simp
  qed
  have m2: "\<bar>1 - min 1 q\<bar> \<le> 4 * K + 36" using m1 e K(1) by argo
  have "\<bar>1 - min 1 q\<bar> \<le> 2 ^ 1000" using m2 K(2) c B P by argo
  then obtain e' where e': "round_double (1 - min 1 q) = Fin e'"
      "9007199254740992 * \<bar>e' - (1 - min 1 q)\<bar> \<le> \<bar>1 - min 1 q\<bar> + 1"
    by (rule round_double_near)
  have e1: "9007199254740992 * \<bar>e' - (1 - min 1 q)\<bar> \<le> 4 * K + 37" using e'(2) m2 by argo
  have "9007199254740992 * \<bar>e' - e\<bar> \<le> 8 * K + 72" using e1 m1 by argo
  then have bound: "\<bar>e' - e\<bar> \<le> (72 + 8 * (\<bar>c\<bar> / l)) / 2 ^ 53"
    by (simp add: K_def field_simps)
  have "dbl_sub (Fin c) (dbl_mul (Fin l) (dbl_sub (Fin 1) (Fin e))) = Fin t"
    by (simp add: dbl_sub_def dbl_mul_def a(1) b(1) t(1))
  moreover have "dbl_sub (Fin 1) (js_min (Fin 1) (dbl_div (dbl_sub (Fin c) (Fin t)) (Fin l))) = Fin e'"
  proof -
    have "dbl_div (dbl_sub (Fin c) (Fin t)) (Fin l) = Fin q"
      using l by (simp add: dbl_sub_def dbl_div_def lc(1) q(1))
    then have "dbl_sub (Fin 1) (js_min (Fin 1) (dbl_div (dbl_sub (Fin c) (Fin t)) (Fin l)))
        = dbl_sub (Fin 1) (Fin (min 1 q))"
      by (simp only: js_min_Fin)
    also have "\<dots> = Fin e'" by (simp add: dbl_sub_def e'(1))
    finally show ?thesis .
  qed
  ultimately show ?thesis using bound by blast
qed

text \<open>
  \<^bold>\<open>C2.\<close> With \<open>symmetric\<close> on, when the current entry is in state \<open>Entering\<close>,
  the setter (given another value or \<^verbatim>\<open>undefined\<close>) puts it in state \<open>Reverse\<close>,
  existence and timings unchanged, keeps it on the stack and requests a frame. The next
  frame, at time \<open>clock\<close>, puts it in state \<open>Leaving\<close>, sets its start time to
  \<open>clock - leave * (1 - e)\<close>, where \<open>e\<close> is the existence it was retired at, and
  computes its existence by the leave formula from that start time. This holds with the
  exact operations and with the operations on doubles alike. With the exact operations,
  when \<open>e \<ge> 0\<close> and the leave duration is a finite number other than zero, the
  existence computed is \<open>e\<close> again: in exact arithmetic there is no jump. With the
  operations on doubles, when \<open>e\<close> lies between 0 and 1, the leave duration is 1 or
  more and neither it nor the time of the frame exceeds \<open>2 ^ 500\<close> in magnitude, the
  existence computed is a finite number within
  \<open>(72 + 8 * (\<bar>clock\<bar> / leave)) / 2 ^ 53\<close> of \<open>e\<close>: the jump is a rounding error.
\<close>

theorem reverse_continuous:
  assumes "symmetric (animateByOptions (run evs))"
    and "current (run evs) = Some r" and "state (heap (run evs) r) = Entering"
    and "v \<noteq> Some (implicit (heap (run evs) r))"
  shows "state (heap (animateBy v (run evs)) r) = Reverse
    \<and> existence (heap (animateBy v (run evs)) r) = existence (heap (run evs) r)
    \<and> timings (heap (animateBy v (run evs)) r) = timings (heap (run evs) r)
    \<and> r \<in> set (stack (animateBy v (run evs)))
    \<and> animId (animateBy v (run evs)) \<noteq> None
    \<and> state (heap (doAnimationFrame (Fin clock) (animateBy v (run evs))) r) = Leaving
    \<and> startTime (heap (doAnimationFrame (Fin clock) (animateBy v (run evs))) r)
        = Some (js_sub (Fin clock)
            (js_mul (leave (timings (heap (run evs) r)))
               (js_sub (Fin 1) (existence (heap (run evs) r)))))
    \<and> (\<forall>t. startTime (heap (doAnimationFrame (Fin clock) (animateBy v (run evs))) r) = Some t \<longrightarrow>
          existence (heap (doAnimationFrame (Fin clock) (animateBy v (run evs))) r)
          = js_sub (Fin 1) (js_min (Fin 1)
              (js_div (js_sub (Fin clock) t) (leave (timings (heap (run evs) r))))))
    \<and> state (fst (animateEntry_dbl (Fin clock) False (heap (animateBy v (run evs)) r))) = Leaving
    \<and> startTime (fst (animateEntry_dbl (Fin clock) False (heap (animateBy v (run evs)) r)))
        = Some (dbl_sub (Fin clock)
            (dbl_mul (leave (timings (heap (run evs) r)))
               (dbl_sub (Fin 1) (existence (heap (run evs) r)))))
    \<and> (\<forall>t. startTime (fst (animateEntry_dbl (Fin clock) False (heap (animateBy v (run evs)) r)))
            = Some t \<longrightarrow>
          existence (fst (animateEntry_dbl (Fin clock) False (heap (animateBy v (run evs)) r)))
          = dbl_sub (Fin 1) (js_min (Fin 1)
              (dbl_div (dbl_sub (Fin clock) t) (leave (timings (heap (run evs) r))))))
    \<and> (\<forall>e l. existence (heap (run evs) r) = Fin e \<and> 0 \<le> e
            \<and> leave (timings (heap (run evs) r)) = Fin l \<and> l \<noteq> 0 \<longrightarrow>
          startTime (heap (doAnimationFrame (Fin clock) (animateBy v (run evs))) r)
            = Some (Fin (clock - l * (1 - e)))
        \<and> existence (heap (doAnimationFrame (Fin clock) (animateBy v (run evs))) r) = Fin e)
    \<and> (\<forall>e l. existence (heap (run evs) r) = Fin e \<and> 0 \<le> e \<and> e \<le> 1
            \<and> leave (timings (heap (run evs) r)) = Fin l \<and> 1 \<le> l \<and> l \<le> 2 ^ 500
            \<and> \<bar>clock\<bar> \<le> 2 ^ 500 \<longrightarrow>
          (\<exists>e'. existence (fst (animateEntry_dbl (Fin clock) False (heap (animateBy v (run evs)) r)))
                  = Fin e'
              \<and> \<bar>e' - e\<bar> \<le> (72 + 8 * (\<bar>clock\<bar> / l)) / 2 ^ 53))"
proof -
  let ?s = "run evs"
  let ?s1 = "animateBy v ?s"
  let ?s2 = "doAnimationFrame (Fin clock) ?s1"
  let ?L = "leave (timings (heap ?s r))"
  let ?t = "js_sub (Fin clock) (js_mul ?L (js_sub (Fin 1) (existence (heap ?s r))))"
  let ?d = "fst (animateEntry_dbl (Fin clock) False (heap ?s1 r))"
  let ?td = "dbl_sub (Fin clock) (dbl_mul ?L (dbl_sub (Fin 1) (existence (heap ?s r))))"
  have c: "consistent ?s" by (rule consistent_run)
  have c1: "consistent ?s1" using c by (rule consistent_animateBy)
  note d1 = stack_okD(1) [OF consistentD(1) [OF c1]]
  note a = current_allocated [OF c assms(2)]
  note ret = animateBy_retire [OF c assms(2,4)]
  have w: "window ?s"
    using window_okD(1) [OF consistentD(4) [OF c] a(1)] assms(3) by simp
  have h1: "heap ?s1 r = (heap ?s r)\<lparr>state := Reverse\<rparr>"
    using w assms(1,3) by (simp add: ret(1) removeCurrent_heap)
  have r1: "r \<in> set (stack ?s1)" using w by (rule ret(3))
  have an1: "animId ?s1 \<noteq> None"
    using w assms(1,3) by (intro ret(4) removeCurrent_animId_Reverse)
  have h2: "heap ?s2 r = (heap ?s r)\<lparr>state := Leaving,
      existence := js_sub (Fin 1) (js_min (Fin 1) (js_div (js_sub (Fin clock) ?t) ?L)),
      startTime := Some ?t\<rparr>"
    using r1 by (simp add: doAnimationFrame_heap [OF d1] h1 animateEntry_Reverse Let_def)
  have hd: "?d = (heap ?s r)\<lparr>state := Leaving,
      existence := dbl_sub (Fin 1) (js_min (Fin 1) (dbl_div (dbl_sub (Fin clock) ?td) ?L)),
      startTime := Some ?td\<rparr>"
    by (simp add: h1 animateEntry_dbl_Reverse Let_def)
  have ex: "startTime (heap ?s2 r) = Some (Fin (clock - l * (1 - e))) \<and>
      existence (heap ?s2 r) = Fin e"
    if "existence (heap ?s r) = Fin e" "0 \<le> e" "?L = Fin l" "l \<noteq> 0" for e l
    using that by (simp add: h2 js_min_Fin back_dated)
  have "state (heap ?s1 r) = Reverse" "existence (heap ?s1 r) = existence (heap ?s r)"
    "timings (heap ?s1 r) = timings (heap ?s r)" "state (heap ?s2 r) = Leaving"
    "startTime (heap ?s2 r) = Some ?t"
    by (simp_all add: h1 h2)
  moreover have "\<forall>t. startTime (heap ?s2 r) = Some t \<longrightarrow>
      existence (heap ?s2 r) = js_sub (Fin 1) (js_min (Fin 1) (js_div (js_sub (Fin clock) t) ?L))"
    by (simp add: h2)
  moreover have "state ?d = Leaving" "startTime ?d = Some ?td"
    by (simp_all add: hd)
  moreover have "\<forall>t. startTime ?d = Some t \<longrightarrow>
      existence ?d = dbl_sub (Fin 1) (js_min (Fin 1) (dbl_div (dbl_sub (Fin clock) t) ?L))"
    by (simp add: hd)
  moreover have "\<exists>e'. existence ?d = Fin e' \<and> \<bar>e' - e\<bar> \<le> (72 + 8 * (\<bar>clock\<bar> / l)) / 2 ^ 53"
    if "existence (heap ?s r) = Fin e" "0 \<le> e" "e \<le> 1" "?L = Fin l" "1 \<le> l" "l \<le> 2 ^ 500"
      "\<bar>clock\<bar> \<le> 2 ^ 500" for e l
  proof -
    from reverse_error [OF that(2,3,5,6,7)] obtain t e'
      where "dbl_sub (Fin clock) (dbl_mul (Fin l) (dbl_sub (Fin 1) (Fin e))) = Fin t"
        and "dbl_sub (Fin 1) (js_min (Fin 1) (dbl_div (dbl_sub (Fin clock) (Fin t)) (Fin l))) = Fin e'"
        and "\<bar>e' - e\<bar> \<le> (72 + 8 * (\<bar>clock\<bar> / l)) / 2 ^ 53"
      by blast
    then show ?thesis using that(1,4) by (simp add: hd)
  qed
  ultimately show ?thesis using r1 an1 ex by blast
qed

theorem reverse_continuous_witness:
  "symmetric (animateByOptions (run [NgOnInit (Some True),
       SetOptions \<lparr>symmetric = True, opt_timings = Some \<lparr>enter = Fin 1000, leave = Fin 500\<rparr>\<rparr>,
       SetAnimateBy (Some (1::nat)), Frame 0, Frame 400]))
   \<and> current (run [NgOnInit (Some True),
       SetOptions \<lparr>symmetric = True, opt_timings = Some \<lparr>enter = Fin 1000, leave = Fin 500\<rparr>\<rparr>,
       SetAnimateBy (Some (1::nat)), Frame 0, Frame 400]) = Some 0
   \<and> leave (timings (heap (run [NgOnInit (Some True),
       SetOptions \<lparr>symmetric = True, opt_timings = Some \<lparr>enter = Fin 1000, leave = Fin 500\<rparr>\<rparr>,
       SetAnimateBy (Some (1::nat)), Frame 0, Frame 400]) 0)) = Fin 500
   \<and> state (heap (run [NgOnInit (Some True),
       SetOptions \<lparr>symmetric = True, opt_timings = Some \<lparr>enter = Fin 1000, leave = Fin 500\<rparr>\<rparr>,
       SetAnimateBy (Some (1::nat)), Frame 0, Frame 400]) 0) = Entering
   \<and> existence (heap (run [NgOnInit (Some True),
       SetOptions \<lparr>symmetric = True, opt_timings = Some \<lparr>enter = Fin 1000, leave = Fin 500\<rparr>\<rparr>,
       SetAnimateBy (Some (1::nat)), Frame 0, Frame 400]) 0) = Fin (2 / 5)
   \<and> state (heap (animateBy None (run [NgOnInit (Some True),
       SetOptions \<lparr>symmetric = True, opt_timings = Some \<lparr>enter = Fin 1000, leave = Fin 500\<rparr>\<rparr>,
       SetAnimateBy (Some (1::nat)), Frame 0, Frame 400])) 0) = Reverse
   \<and> state (heap (doAnimationFrame (Fin 416) (animateBy None (run [NgOnInit (Some True),
       SetOptions \<lparr>symmetric = True, opt_timings = Some \<lparr>enter = Fin 1000, leave = Fin 500\<rparr>\<rparr>,
       SetAnimateBy (Some (1::nat)), Frame 0, Frame 400]))) 0) = Leaving
   \<and> startTime (heap (doAnimationFrame (Fin 416) (animateBy None (run [NgOnInit (Some True),
       SetOptions \<lparr>symmetric = True, opt_timings = Some \<lparr>enter = Fin 1000, leave = Fin 500\<rparr>\<rparr>,
       SetAnimateBy (Some (1::nat)), Frame 0, Frame 400]))) 0) = Some (Fin 116)
   \<and> existence (heap (doAnimationFrame (Fin 416) (animateBy None (run [NgOnInit (Some True),
       SetOptions \<lparr>symmetric = True, opt_timings = Some \<lparr>enter = Fin 1000, leave = Fin 500\<rparr>\<rparr>,
       SetAnimateBy (Some (1::nat)), Frame 0, Frame 400]))) 0) = Fin (2 / 5)"
  using reverse_continuous [of "[NgOnInit (Some True),
       SetOptions \<lparr>symmetric = True, opt_timings = Some \<lparr>enter = Fin 1000, leave = Fin 500\<rparr>\<rparr>,
       SetAnimateBy (Some (1::nat)), Frame 0, Frame 400]" 0 None 416]
  by (simp add: exec)

text \<open>
  Where there is a jump. With a leave duration of zero: the entry is retired at existence
  2/5, the next frame sets its start time to the time of the frame and computes
  \<open>0 / 0\<close>, so its existence is \<open>NaN\<close>. With the operations on doubles and the default
  durations of 1000: an entry that started at time 0 has, after the frame at time 100,
  the existence \<open>3602879701896397 / 36028797018963968\<close>, the double written \<^verbatim>\<open>0.1\<close>;
  it is retired, and the frame at time 116 sets its start time to -784 and computes the
  existence \<open>900719925474099 / 9007199254740992\<close>, the double written
  \<^verbatim>\<open>0.09999999999999998\<close>, which is less.
\<close>

theorem reverse_jumps:
  "existence (heap (animateBy None (run [NgOnInit (Some True),
       SetOptions \<lparr>symmetric = True, opt_timings = Some \<lparr>enter = Fin 1000, leave = Fin 0\<rparr>\<rparr>,
       SetAnimateBy (Some (1::nat)), Frame 0, Frame 400])) 0) = Fin (2 / 5)
   \<and> state (heap (animateBy None (run [NgOnInit (Some True),
       SetOptions \<lparr>symmetric = True, opt_timings = Some \<lparr>enter = Fin 1000, leave = Fin 0\<rparr>\<rparr>,
       SetAnimateBy (Some (1::nat)), Frame 0, Frame 400])) 0) = Reverse
   \<and> startTime (heap (doAnimationFrame (Fin 416) (animateBy None (run [NgOnInit (Some True),
       SetOptions \<lparr>symmetric = True, opt_timings = Some \<lparr>enter = Fin 1000, leave = Fin 0\<rparr>\<rparr>,
       SetAnimateBy (Some (1::nat)), Frame 0, Frame 400]))) 0) = Some (Fin 416)
   \<and> existence (heap (doAnimationFrame (Fin 416) (animateBy None (run [NgOnInit (Some True),
       SetOptions \<lparr>symmetric = True, opt_timings = Some \<lparr>enter = Fin 1000, leave = Fin 0\<rparr>\<rparr>,
       SetAnimateBy (Some (1::nat)), Frame 0, Frame 400]))) 0) = NaN
   \<and> animateEntry_dbl (Fin 100) True
        \<lparr>implicit = (1::nat), state = Entering, existence = Fin 0,
         timings = \<lparr>enter = Fin 1000, leave = Fin 1000\<rparr>, startTime = Some (Fin 0)\<rparr>
      = (\<lparr>implicit = 1, state = Entering,
          existence = Fin (3602879701896397 / 36028797018963968),
          timings = \<lparr>enter = Fin 1000, leave = Fin 1000\<rparr>, startTime = Some (Fin 0)\<rparr>, False, True)
   \<and> animateEntry_dbl (Fin 116) False
        \<lparr>implicit = (1::nat), state = Reverse,
         existence = Fin (3602879701896397 / 36028797018963968),
         timings = \<lparr>enter = Fin 1000, leave = Fin 1000\<rparr>, startTime = Some (Fin 0)\<rparr>
      = (\<lparr>implicit = 1, state = Leaving,
          existence = Fin (900719925474099 / 9007199254740992),
          timings = \<lparr>enter = Fin 1000, leave = Fin 1000\<rparr>, startTime = Some (Fin (- 784))\<rparr>,
         False, True)
   \<and> (900719925474099 / 9007199254740992 :: real) < 3602879701896397 / 36028797018963968"
  by (simp add: exec entering_tick_double reverse_tick_double)

text \<open>
  What a frame at time \<open>clock\<close> does to a stack entry whose duration is zero.
  When the elapsed time is zero (the start time is assigned in this frame, or equals
  \<open>clock\<close>), the quotient is \<open>0 / 0\<close>: the existence becomes \<open>NaN\<close>, the entry keeps
  its state and stays on the stack, and another frame is requested. When the start time
  lies before \<open>clock\<close>, the existence goes to the boundary: to 1 for an entering entry,
  which becomes \<open>Here\<close> or \<open>Leaving\<close>, and to 0 for a leaving entry, which is taken
  off the stack.
\<close>

lemma zero_duration_frame:
  assumes "r \<in> set (stack (run evs))"
  shows "(state (heap (run evs) r) = Entering \<and> enter (timings (heap (run evs) r)) = Fin 0 \<longrightarrow>
      (startTime (heap (run evs) r) = None \<or> startTime (heap (run evs) r) = Some (Fin clock) \<longrightarrow>
         existence (heap (doAnimationFrame (Fin clock) (run evs)) r) = NaN
       \<and> state (heap (doAnimationFrame (Fin clock) (run evs)) r) = Entering
       \<and> startTime (heap (doAnimationFrame (Fin clock) (run evs)) r) = Some (Fin clock)
       \<and> r \<in> set (stack (doAnimationFrame (Fin clock) (run evs)))
       \<and> animId (doAnimationFrame (Fin clock) (run evs)) \<noteq> None)
    \<and> (\<forall>t. startTime (heap (run evs) r) = Some (Fin t) \<and> t < clock \<longrightarrow>
         existence (heap (doAnimationFrame (Fin clock) (run evs)) r) = Fin 1
       \<and> state (heap (doAnimationFrame (Fin clock) (run evs)) r)
           = (if current (run evs) = Some r then Here else Leaving)))
   \<and> (state (heap (run evs) r) = Leaving \<and> leave (timings (heap (run evs) r)) = Fin 0 \<longrightarrow>
      (startTime (heap (run evs) r) = None \<or> startTime (heap (run evs) r) = Some (Fin clock) \<longrightarrow>
         existence (heap (doAnimationFrame (Fin clock) (run evs)) r) = NaN
       \<and> state (heap (doAnimationFrame (Fin clock) (run evs)) r) = Leaving
       \<and> r \<in> set (stack (doAnimationFrame (Fin clock) (run evs)))
       \<and> animId (doAnimationFrame (Fin clock) (run evs)) \<noteq> None)
    \<and> (\<forall>t. startTime (heap (run evs) r) = Some (Fin t) \<and> t < clock \<longrightarrow>
         existence (heap (doAnimationFrame (Fin clock) (run evs)) r) = Fin 0
       \<and> r \<notin> set (stack (doAnimationFrame (Fin clock) (run evs)))))"
proof -
  let ?s = "run evs"
  let ?u = "doAnimationFrame (Fin clock) ?s"
  let ?ae = "animateEntry (Fin clock) (current ?s = Some r) (heap ?s r)"
  have c: "consistent ?s" by (rule consistent_run)
  note d = stack_okD(1) [OF consistentD(1) [OF c]]
  have hu: "heap ?u r = fst ?ae"
    using assms by (simp add: doAnimationFrame_heap [OF d])
  have su: "r \<in> set (stack ?u) \<longleftrightarrow> \<not> fst (snd ?ae)"
    using assms by (simp add: doAnimationFrame_stack [OF d])
  have an: "animId ?u \<noteq> None" if "snd (snd ?ae)" "state (heap ?s r) \<noteq> Here"
    using that assms window_okD(1) [OF consistentD(4) [OF c] assms]
    by (auto simp: doAnimationFrame_animId [OF d])
  have e0: "existence (heap ?u r) = NaN \<and> state (heap ?u r) = Entering \<and>
      startTime (heap ?u r) = Some (Fin clock) \<and> r \<in> set (stack ?u) \<and> animId ?u \<noteq> None"
    if "state (heap ?s r) = Entering" "enter (timings (heap ?s r)) = Fin 0"
      "startTime (heap ?s r) = None \<or> startTime (heap ?s r) = Some (Fin clock)"
  proof -
    from that have "?ae = ((heap ?s r)\<lparr>existence := NaN, startTime := Some (Fin clock)\<rparr>, False, True)"
      by (auto simp: animateEntry_Entering Let_def js_ge_def)
    with hu su an that(1) show ?thesis by simp
  qed
  have e1: "existence (heap ?u r) = Fin 1 \<and>
      state (heap ?u r) = (if current ?s = Some r then Here else Leaving)"
    if "state (heap ?s r) = Entering" "enter (timings (heap ?s r)) = Fin 0"
      "startTime (heap ?s r) = Some (Fin t)" "t < clock" for t
    using that by (simp add: hu animateEntry_Entering Let_def js_ge_def)
  have l0: "existence (heap ?u r) = NaN \<and> state (heap ?u r) = Leaving \<and>
      r \<in> set (stack ?u) \<and> animId ?u \<noteq> None"
    if "state (heap ?s r) = Leaving" "leave (timings (heap ?s r)) = Fin 0"
      "startTime (heap ?s r) = None \<or> startTime (heap ?s r) = Some (Fin clock)"
  proof -
    from that have "?ae = ((heap ?s r)\<lparr>existence := NaN, startTime := Some (Fin clock)\<rparr>, False, True)"
      by (auto simp: animateEntry_Leaving Let_def)
    with hu su an that(1) show ?thesis by simp
  qed
  have l1: "existence (heap ?u r) = Fin 0 \<and> r \<notin> set (stack ?u)"
    if "state (heap ?s r) = Leaving" "leave (timings (heap ?s r)) = Fin 0"
      "startTime (heap ?s r) = Some (Fin t)" "t < clock" for t
    using that by (simp add: hu su animateEntry_Leaving Let_def)
  from e0 e1 l0 l1 show ?thesis by blast
qed

text \<open>
  \<^bold>\<open>C9.\<close> The first frame of an entry made with durations of zero, at time 5: the
  entry is entering with no start time; the frame sets the start time to 5, so the
  elapsed time is 0 and the quotient is \<open>0 / 0\<close>. The existence is \<open>NaN\<close>, not 1, and
  the entry is still entering. Only the next frame, at a later time, brings it to 1.
\<close>

theorem zero_duration_first_frame:
  "state (heap (run [NgOnInit (Some True),
       SetOptions \<lparr>symmetric = False, opt_timings = Some \<lparr>enter = Fin 0, leave = Fin 0\<rparr>\<rparr>,
       SetAnimateBy (Some (1::nat))]) 0) = Entering
   \<and> startTime (heap (run [NgOnInit (Some True),
       SetOptions \<lparr>symmetric = False, opt_timings = Some \<lparr>enter = Fin 0, leave = Fin 0\<rparr>\<rparr>,
       SetAnimateBy (Some (1::nat))]) 0) = None
   \<and> startTime (heap (run [NgOnInit (Some True),
       SetOptions \<lparr>symmetric = False, opt_timings = Some \<lparr>enter = Fin 0, leave = Fin 0\<rparr>\<rparr>,
       SetAnimateBy (Some (1::nat)), Frame 5]) 0) = Some (Fin 5)
   \<and> existence (heap (run [NgOnInit (Some True),
       SetOptions \<lparr>symmetric = False, opt_timings = Some \<lparr>enter = Fin 0, leave = Fin 0\<rparr>\<rparr>,
       SetAnimateBy (Some (1::nat)), Frame 5]) 0) = NaN
   \<and> state (heap (run [NgOnInit (Some True),
       SetOptions \<lparr>symmetric = False, opt_timings = Some \<lparr>enter = Fin 0, leave = Fin 0\<rparr>\<rparr>,
       SetAnimateBy (Some (1::nat)), Frame 5]) 0) = Entering
   \<and> existence (heap (run [NgOnInit (Some True),
       SetOptions \<lparr>symmetric = False, opt_timings = Some \<lparr>enter = Fin 0, leave = Fin 0\<rparr>\<rparr>,
       SetAnimateBy (Some (1::nat)), Frame 5, Frame 21]) 0) = Fin 1"
  by (simp add: exec)

subsection \<open>Existence stays between 0 and 1\<close>

lemma positive_timingsD:
  assumes "positive_timings t"
  obtains a b where "enter t = Fin a" "0 < a" "leave t = Fin b" "0 < b"
  using assms unfolding positive_timings_def
  by (cases "enter t"; cases "leave t") auto

lemma unit_number:
  assumes "js_le (Fin 0) x" and "js_le x (Fin 1)"
  obtains e where "x = Fin e" "0 \<le> e" "e \<le> 1"
  using assms by (cases x) auto

lemma started_by_cases:
  assumes "started_by prev st"
  obtains "st = None" | t l where "st = Some (Fin t)" "prev = Some l" "t \<le> l"
proof (cases st)
  case None
  then show ?thesis by (rule that(1))
next
  case (Some u)
  with assms obtain t where u: "u = Fin t"
    by (cases u) (auto simp: started_by_def)
  with assms Some obtain l where "prev = Some l" "t \<le> l"
    by (cases prev) (auto simp: started_by_def)
  with Some u show ?thesis by (auto intro: that(2))
qed

lemma started_by_later:
  assumes "started_by prev st" and "case prev of None \<Rightarrow> True | Some l \<Rightarrow> l \<le> clock"
  shows "started_by (Some clock) st"
  using assms(1)
proof (cases rule: started_by_cases)
  case 1
  then show ?thesis by (simp add: started_by_def)
next
  case (2 t l)
  with assms(2) show ?thesis by (simp add: started_by_def)
qed

lemma in_time_later:
  "in_time prev ctx \<Longrightarrow> (case prev of None \<Rightarrow> True | Some l \<Rightarrow> l \<le> clock) \<Longrightarrow>
   in_time (Some clock) ctx"
  by (auto simp: in_time_def intro: started_by_later)

lemma in_time_state [simp]: "in_time prev (ctx\<lparr>state := st\<rparr>) = in_time prev ctx"
  by (simp add: in_time_def)

lemma enter_progress:
  fixes a :: real
  assumes "0 < a" and "t \<le> clock"
  shows "0 \<le> min 1 ((clock - t) / a)" and "min 1 ((clock - t) / a) \<le> 1"
  using assms by simp_all

lemma in_time_animateEntry:
  assumes "in_time prev ctx" and le: "case prev of None \<Rightarrow> True | Some l \<Rightarrow> l \<le> clock"
  shows "in_time (Some clock) (fst (animateEntry (Fin clock) b ctx))"
proof -
  from assms(1) have pt: "positive_timings (timings ctx)"
    and e0: "js_le (Fin 0) (existence ctx)" and e1: "js_le (existence ctx) (Fin 1)"
    and sb: "started_by prev (startTime ctx)"
    by (simp_all add: in_time_def)
  from pt obtain a l where tm: "enter (timings ctx) = Fin a" "0 < a" "leave (timings ctx) = Fin l" "0 < l"
    by (rule positive_timingsD)
  from e0 e1 obtain e where ex: "existence ctx = Fin e" "0 \<le> e" "e \<le> 1"
    by (rule unit_number)
  define t where "t = (case startTime ctx of None \<Rightarrow> clock | Some (Fin u) \<Rightarrow> u | Some _ \<Rightarrow> clock)"
  have t: "(case startTime ctx of None \<Rightarrow> Fin clock | Some u \<Rightarrow> u) = Fin t" "t \<le> clock"
    using sb le by (cases rule: started_by_cases; simp add: t_def)+
  show ?thesis
  proof (cases "state ctx")
    case Here
    with assms show ?thesis by (simp add: animateEntry_Here in_time_later)
  next
    case Entering
    with pt tm t enter_progress [OF tm(2) t(2)] show ?thesis
      by (simp add: animateEntry_Entering Let_def in_time_def js_min_Fin started_by_def)
  next
    case Leaving
    with pt tm t enter_progress [OF tm(4) t(2)] show ?thesis
      by (simp add: animateEntry_Leaving Let_def in_time_def js_min_Fin started_by_def)
  next
    case Reverse
    have "l * (1 - e) \<ge> 0" using tm(4) ex(3) by simp
    moreover have "(clock - (clock - l * (1 - e))) / l = 1 - e" using tm(4) by simp
    ultimately show ?thesis
      using Reverse pt tm ex
      by (simp add: animateEntry_Reverse Let_def in_time_def js_min_Fin started_by_def)
  qed
qed

lemma timed_init: "timed None init"
  by (simp add: timed_def init_def positive_options_def positive_timings_def
      defaultAnimateByTimings_def)

lemma timed_cong:
  "stack t = stack s \<Longrightarrow> heap t = heap s \<Longrightarrow> animateByOptions t = animateByOptions s \<Longrightarrow>
   timed prev t = timed prev s"
  by (simp add: timed_def)

lemma timed_later:
  "timed prev s \<Longrightarrow> (case prev of None \<Rightarrow> True | Some l \<Rightarrow> l \<le> clock) \<Longrightarrow>
   timed (Some clock) s"
  by (auto simp: timed_def intro: in_time_later)

lemma timed_doAnimationFrame:
  assumes "consistent s" and "timed prev s"
    and "case prev of None \<Rightarrow> True | Some l \<Rightarrow> l \<le> clock"
  shows "timed (Some clock) (doAnimationFrame (Fin clock) s)"
proof -
  note d = stack_okD(1) [OF consistentD(1) [OF assms(1)]]
  have "in_time (Some clock) (heap (doAnimationFrame (Fin clock) s) r)"
    if "r \<in> set (stack (doAnimationFrame (Fin clock) s))" for r
  proof -
    from that have r: "r \<in> set (stack s)" by (simp add: doAnimationFrame_stack [OF d])
    with assms(2) have "in_time prev (heap s r)" by (simp add: timed_def)
    from in_time_animateEntry [OF this assms(3)] r show ?thesis
      by (simp add: doAnimationFrame_heap [OF d])
  qed
  with assms(2) show ?thesis by (simp add: timed_def)
qed

lemma timed_frame:
  assumes "consistent s" and "registered s" and "timed prev s"
    and "case prev of None \<Rightarrow> True | Some l \<Rightarrow> l \<le> clock"
  shows "timed (Some clock) (frame clock s)"
proof -
  from registered_pending [OF assms(2)] show ?thesis
  proof
    assume "pending s = []"
    with timed_later [OF assms(3,4)] show ?thesis by (simp add: frame_cases)
  next
    assume "\<exists>h. pending s = [h]"
    then obtain h where h: "pending s = [h]" ..
    have "consistent (s\<lparr>pending := []\<rparr>)" using assms(1) by (simp add: consistent_pending)
    moreover have "timed prev (s\<lparr>pending := []\<rparr>)"
      using assms(3) by (simp add: timed_cong [of "s\<lparr>pending := []\<rparr>" s])
    ultimately show ?thesis
      using h assms(4) by (simp add: frame_cases timed_doAnimationFrame)
  qed
qed

lemma timed_removeCurrent:
  assumes "consistent s" and "timed prev s" and "current s = Some cur"
  shows "timed prev (removeCurrent cur s)"
proof -
  have "in_time prev (heap (removeCurrent cur s) r)" if "r \<in> set (stack (removeCurrent cur s))" for r
  proof -
    have "r \<in> set (stack s)"
    proof (cases "window s")
      case True
      with that show ?thesis by (simp add: removeCurrent_stack)
    next
      case False
      from window_okD(4) [OF consistentD(4) [OF assms(1)] False] assms(3)
      have "stack s = [cur]" by simp
      with that False show ?thesis by (simp add: removeCurrent_stack remove_at_def)
    qed
    with assms(2) have "in_time prev (heap s r)" by (simp add: timed_def)
    then show ?thesis by (cases "r = cur") (auto simp: removeCurrent_heap)
  qed
  with assms(2) show ?thesis by (simp add: timed_def)
qed

lemma timed_newCurrent:
  assumes "consistent s" and "timed prev s"
  shows "timed prev (newCurrent x s)"
proof -
  from assms(2) have po: "positive_options (animateByOptions s)" by (simp add: timed_def)
  have new: "in_time prev (heap (newCurrent x s) (next_ref s))"
    using po
    by (auto simp: in_time_def newCurrent_heap_new started_by_def positive_options_def
        positive_timings_def defaultAnimateByTimings_def split: option.splits)
  have "in_time prev (heap (newCurrent x s) r)" if "r \<in> set (stack (newCurrent x s))" for r
  proof (cases "r = next_ref s")
    case True
    with new show ?thesis by simp
  next
    case False
    with that assms(2) show ?thesis by (simp add: timed_def newCurrent_heap_other)
  qed
  with po show ?thesis by (simp add: timed_def)
qed

lemma timed_animateBy:
  assumes "consistent s" and "timed prev s"
  shows "timed prev (animateBy v s)"
  using assms
  by (auto simp: animateBy_unfold timed_newCurrent timed_removeCurrent consistent_removeCurrent
      split: option.splits)

lemma timed_fold:
  "consistent s \<Longrightarrow> registered s \<Longrightarrow> timed prev s \<Longrightarrow> well_timed prev evs \<Longrightarrow>
   \<exists>prev'. timed prev' (fold step evs s)"
proof (induction evs arbitrary: s prev)
  case Nil
  then show ?case by auto
next
  case (Cons ev evs)
  note inv = invariants_step [OF Cons.prems(1,2), of ev]
  show ?case
  proof (cases ev)
    case (NgOnInit w)
    with Cons.prems have "timed prev (step ev s)" "well_timed prev evs"
      by (simp_all add: timed_cong [of "ngOnInit w s" s])
    with Cons.IH [of "step ev s" prev] inv show ?thesis by simp
  next
    case (SetAnimateBy v)
    with Cons.prems have "timed prev (step ev s)" "well_timed prev evs"
      by (simp_all add: timed_animateBy)
    with Cons.IH [of "step ev s" prev] inv show ?thesis by simp
  next
    case (SetOptions opts)
    with Cons.prems have "timed prev (step ev s)" "well_timed prev evs"
      by (simp_all add: timed_def)
    with Cons.IH [of "step ev s" prev] inv show ?thesis by simp
  next
    case (Frame clock)
    with Cons.prems have "timed (Some clock) (step ev s)" "well_timed (Some clock) evs"
      by (simp_all add: timed_frame)
    with Cons.IH [of "step ev s" "Some clock"] inv show ?thesis by simp
  next
    case NgOnDestroy
    with Cons.prems have "timed prev (step ev s)" "well_timed prev evs"
      by (simp_all add: ngOnDestroy_result timed_cong [of "s\<lparr>pending := []\<rparr>" s])
    with Cons.IH [of "step ev s" prev] inv show ?thesis by simp
  qed
qed

lemma timed_run: "well_timed None evs \<Longrightarrow> \<exists>prev. timed prev (run evs)"
  unfolding run_def by (rule timed_fold [OF consistent_init registered_init timed_init])



subsection \<open>Existence moves in one direction\<close>

lemma same_progress_refl [simp]: "same_progress c c"
  by (simp add: same_progress_def)

lemma same_progress_trans: "same_progress a b \<Longrightarrow> same_progress b c \<Longrightarrow> same_progress a c"
  by (simp add: same_progress_def)

lemma same_progress_removeCurrent: "same_progress (heap s r) (heap (removeCurrent cur s) r)"
  by (cases "r = cur") (auto simp: same_progress_def removeCurrent_heap)

lemma same_progress_newCurrent:
  "r < next_ref s \<Longrightarrow> same_progress (heap s r) (heap (newCurrent x s) r)"
  by (simp add: newCurrent_heap_other)

lemma same_progress_animateBy:
  assumes "r < next_ref s"
  shows "same_progress (heap s r) (heap (animateBy v s) r) \<and> r < next_ref (animateBy v s)"
proof -
  have 1: "same_progress (heap s r) (heap (newCurrent x (removeCurrent cur s)) r)" for x cur
    using same_progress_removeCurrent [of s r cur]
      same_progress_newCurrent [of r "removeCurrent cur s" x] assms
    by (auto intro: same_progress_trans)
  show ?thesis
    using assms 1
    by (auto simp: animateBy_unfold same_progress_removeCurrent same_progress_newCurrent
        split: option.splits)
qed

lemma ngOnDestroy_Some: "ngOnDestroy s = Some t \<Longrightarrow> t = s\<lparr>pending := pending t\<rparr>"
  unfolding ngOnDestroy_def cancelAnimationFrame_def
  by (auto split: option.splits if_splits)

lemma step_NgOnDestroy: "step NgOnDestroy s = s\<lparr>pending := pending (step NgOnDestroy s)\<rparr>"
proof (cases "ngOnDestroy s")
  case None
  then show ?thesis by simp
next
  case (Some t)
  with ngOnDestroy_Some [OF Some] show ?thesis by simp
qed

lemma same_progress_step:
  assumes "r < next_ref s" and "\<not> is_Frame ev"
  shows "same_progress (heap s r) (heap (step ev s) r) \<and> r < next_ref (step ev s)"
proof (cases ev)
  case (NgOnInit w)
  with assms(1) show ?thesis by simp
next
  case (SetAnimateBy v)
  with same_progress_animateBy [OF assms(1)] show ?thesis by simp
next
  case (SetOptions opts)
  with assms(1) show ?thesis by simp
next
  case (Frame clock)
  with assms(2) show ?thesis by simp
next
  case NgOnDestroy
  have "heap (step NgOnDestroy s) = heap s" "next_ref (step NgOnDestroy s) = next_ref s"
    by (subst step_NgOnDestroy, simp)+
  with NgOnDestroy assms(1) show ?thesis by simp
qed

lemma consistent_step_quiet:
  assumes "consistent s" and "\<not> is_Frame ev"
  shows "consistent (step ev s)"
proof (cases ev)
  case (NgOnInit w)
  with assms(1) show ?thesis by (simp add: consistent_ngOnInit)
next
  case (SetAnimateBy v)
  with assms(1) show ?thesis by (simp add: consistent_animateBy)
next
  case (SetOptions opts)
  with assms(1) show ?thesis by (simp add: consistent_options)
next
  case (Frame clock)
  with assms(2) show ?thesis by simp
next
  case NgOnDestroy
  have "consistent (s\<lparr>pending := pending (step NgOnDestroy s)\<rparr>)"
    using assms(1) by (simp only: consistent_pending)
  with NgOnDestroy show ?thesis by (simp only: step_NgOnDestroy [symmetric])
qed

lemma quiet_fold:
  "consistent s \<Longrightarrow> r < next_ref s \<Longrightarrow> \<forall>ev\<in>set evs. \<not> is_Frame ev \<Longrightarrow>
   consistent (fold step evs s) \<and> same_progress (heap s r) (heap (fold step evs s) r)"
proof (induction evs arbitrary: s)
  case Nil
  then show ?case by simp
next
  case (Cons ev evs)
  from Cons.prems have nf: "\<not> is_Frame ev" by simp
  note st = same_progress_step [OF Cons.prems(2) nf]
  note cs = consistent_step_quiet [OF Cons.prems(1) nf]
  have "consistent (fold step evs (step ev s)) \<and>
      same_progress (heap (step ev s) r) (heap (fold step evs (step ev s)) r)"
    using Cons.prems(3) st cs by (intro Cons.IH) simp_all
  with st show ?case by (auto intro: same_progress_trans)
qed

text \<open>One entry in two frames, the second not earlier than the first.\<close>

lemma progress_mono:
  fixes a :: real
  assumes "0 < a" and "c1 \<le> c2"
  shows "min 1 ((c1 - t) / a) \<le> min 1 ((c2 - t) / a)"
proof -
  from assms have "(c1 - t) / a \<le> (c2 - t) / a" by (simp add: divide_right_mono)
  then show ?thesis by (simp add: min_def)
qed

lemma animateEntry_monotone:
  assumes it: "in_time prev ctx" and le: "c1 \<le> c2"
    and sp: "same_progress (fst (animateEntry (Fin c1) b1 ctx)) ctx'"
  shows "(state (fst (animateEntry (Fin c1) b1 ctx)) = Entering \<and> state ctx' = Entering \<longrightarrow>
           js_le (existence (fst (animateEntry (Fin c1) b1 ctx)))
             (existence (fst (animateEntry (Fin c2) b2 ctx'))))
       \<and> (state (fst (animateEntry (Fin c1) b1 ctx)) = Leaving \<longrightarrow>
           js_le (existence (fst (animateEntry (Fin c2) b2 ctx')))
             (existence (fst (animateEntry (Fin c1) b1 ctx))))"
proof -
  let ?c = "fst (animateEntry (Fin c1) b1 ctx)"
  from it have pt: "positive_timings (timings ctx)"
    and e0: "js_le (Fin 0) (existence ctx)" and e1: "js_le (existence ctx) (Fin 1)"
    and sb: "started_by prev (startTime ctx)"
    by (simp_all add: in_time_def)
  from pt obtain a l where tm: "enter (timings ctx) = Fin a" "0 < a" "leave (timings ctx) = Fin l" "0 < l"
    by (rule positive_timingsD)
  from e0 e1 obtain e where ex: "existence ctx = Fin e" "0 \<le> e" "e \<le> 1"
    by (rule unit_number)
  obtain t where t: "(case startTime ctx of None \<Rightarrow> Fin c1 | Some u \<Rightarrow> u) = Fin t"
    using sb by (cases rule: started_by_cases) auto
  from sp have ex': "existence ctx' = existence ?c" and st': "startTime ctx' = startTime ?c"
    and tm': "timings ctx' = timings ctx"
    and lv: "state ?c = Leaving \<Longrightarrow> state ctx' = Leaving"
    by (simp_all add: same_progress_def)
  have entering: "js_le (existence ?c) (existence (fst (animateEntry (Fin c2) b2 ctx')))"
    if 1: "state ?c = Entering" and 2: "state ctx' = Entering"
  proof -
    from 1 have s0: "state ctx = Entering"
      by (cases "state ctx") (auto simp: animateEntry_cases Let_def split: if_splits)
    from 1 s0 tm t have c: "existence ?c = Fin (min 1 ((c1 - t) / a))" "startTime ?c = Some (Fin t)"
      by (auto simp: animateEntry_Entering Let_def js_min_Fin split: if_splits)
    from 2 c tm ex' st' tm'
    have "existence (fst (animateEntry (Fin c2) b2 ctx')) = Fin (min 1 ((c2 - t) / a))"
      by (simp add: animateEntry_Entering Let_def js_min_Fin)
    with c progress_mono [OF tm(2) le] show ?thesis by simp
  qed
  have leaving: "js_le (existence (fst (animateEntry (Fin c2) b2 ctx'))) (existence ?c)"
    if 1: "state ?c = Leaving"
  proof -
    note 2 = lv [OF 1]
    consider (fresh) "existence ?c = Fin 1" "startTime ?c = None"
      | (going) u where "existence ?c = Fin (1 - min 1 ((c1 - u) / l))" "startTime ?c = Some (Fin u)"
    proof (cases "state ctx")
      case Here
      with 1 show ?thesis by (simp add: animateEntry_Here)
    next
      case Entering
      with 1 have "existence ?c = Fin 1" "startTime ?c = None"
        by (auto simp: animateEntry_Entering Let_def js_ge_def js_min_one_ge split: if_splits)
      then show ?thesis by (rule fresh)
    next
      case Leaving
      with tm t have "existence ?c = Fin (1 - min 1 ((c1 - t) / l))" "startTime ?c = Some (Fin t)"
        by (simp_all add: animateEntry_Leaving Let_def js_min_Fin)
      then show ?thesis by (rule going)
    next
      case Reverse
      with tm ex have "existence ?c = Fin (1 - min 1 ((c1 - (c1 - l * (1 - e))) / l))"
        "startTime ?c = Some (Fin (c1 - l * (1 - e)))"
        by (simp_all add: animateEntry_Reverse Let_def js_min_Fin)
      then show ?thesis by (rule going)
    qed
    then show ?thesis
    proof cases
      case fresh
      with 2 tm ex' st' tm'
      have "existence (fst (animateEntry (Fin c2) b2 ctx')) = Fin (1 - min 1 ((c2 - c2) / l))"
        by (simp add: animateEntry_Leaving Let_def js_min_Fin)
      with fresh show ?thesis by simp
    next
      case (going u)
      with 2 tm ex' st' tm'
      have "existence (fst (animateEntry (Fin c2) b2 ctx')) = Fin (1 - min 1 ((c2 - u) / l))"
        by (simp add: animateEntry_Leaving Let_def js_min_Fin)
      with going progress_mono [OF tm(4) le, of u] show ?thesis by simp
    qed
  qed
  from entering leaving show ?thesis by blast
qed

lemma animateEntry_finite:
  assumes "in_time prev ctx"
  shows "\<exists>x. existence (fst (animateEntry (Fin clock) b ctx)) = Fin x"
proof -
  from assms obtain a l where tm: "enter (timings ctx) = Fin a" "0 < a" "leave (timings ctx) = Fin l" "0 < l"
    by (auto simp: in_time_def elim: positive_timingsD)
  from assms obtain e where ex: "existence ctx = Fin e"
    by (auto simp: in_time_def elim: unit_number)
  from assms obtain t where t: "(case startTime ctx of None \<Rightarrow> Fin clock | Some u \<Rightarrow> u) = Fin t"
    by (auto simp: in_time_def elim!: started_by_cases)
  show ?thesis
  proof (cases "state ctx")
    case Here
    with ex show ?thesis by (simp add: animateEntry_Here)
  next
    case Entering
    with tm t show ?thesis by (simp add: animateEntry_Entering Let_def js_min_Fin)
  next
    case Leaving
    with tm t show ?thesis by (simp add: animateEntry_Leaving Let_def js_min_Fin)
  next
    case Reverse
    with tm ex show ?thesis by (simp add: animateEntry_Reverse Let_def js_min_Fin)
  qed
qed

text \<open>
  \<^bold>\<open>C4.\<close> Take an execution in which every duration given to the directive is positive
  and finite and the time stamps of the frames never decrease, an entry \<open>r\<close> of its
  stack, a frame at time \<open>c1\<close>, then any setter, option and life-cycle events but no
  frame, then a frame at a time \<open>c2\<close> not before \<open>c1\<close>. If \<open>r\<close> is entering after the first frame and still entering when the second
  one starts, its existence after the second frame is not below the one after the first.
  If it is leaving after the first frame, its existence after the second is not above
  the one after the first.
\<close>

theorem existence_monotone:
  assumes "well_timed None evs" and "r \<in> set (stack (run evs))"
    and "\<forall>ev\<in>set between. \<not> is_Frame ev" and "c1 \<le> c2"
  shows "(state (heap (doAnimationFrame (Fin c1) (run evs)) r) = Entering
          \<and> state (heap (fold step between (doAnimationFrame (Fin c1) (run evs))) r) = Entering \<longrightarrow>
            js_le (existence (heap (doAnimationFrame (Fin c1) (run evs)) r))
              (existence (heap (doAnimationFrame (Fin c2)
                 (fold step between (doAnimationFrame (Fin c1) (run evs)))) r)))
       \<and> (state (heap (doAnimationFrame (Fin c1) (run evs)) r) = Leaving \<longrightarrow>
            js_le (existence (heap (doAnimationFrame (Fin c2)
                 (fold step between (doAnimationFrame (Fin c1) (run evs)))) r))
              (existence (heap (doAnimationFrame (Fin c1) (run evs)) r)))"
proof -
  let ?s = "run evs"
  let ?s1 = "doAnimationFrame (Fin c1) ?s"
  let ?t = "fold step between ?s1"
  let ?s2 = "doAnimationFrame (Fin c2) ?t"
  let ?c1 = "fst (animateEntry (Fin c1) (current ?s = Some r) (heap ?s r))"
  have c: "consistent ?s" by (rule consistent_run)
  have c1: "consistent ?s1" using c by (rule consistent_doAnimationFrame)
  note d = stack_okD(1) [OF consistentD(1) [OF c]]
  have al: "r < next_ref ?s1"
    using stack_okD(3) [OF consistentD(1) [OF c] assms(2)] by simp
  from quiet_fold [OF c1 al assms(3)]
  have ct: "consistent ?t" and sp: "same_progress (heap ?s1 r) (heap ?t r)" by simp_all
  note dt = stack_okD(1) [OF consistentD(1) [OF ct]]
  from timed_run [OF assms(1)] obtain prev where "timed prev ?s" ..
  with assms(2) have it: "in_time prev (heap ?s r)" by (simp add: timed_def)
  have h1: "heap ?s1 r = ?c1"
    using assms(2) by (simp add: doAnimationFrame_heap [OF d])
  from sp have sp': "same_progress ?c1 (heap ?t r)" by (simp add: h1)
  show ?thesis
  proof (cases "r \<in> set (stack ?t)")
    case True
    then have "heap ?s2 r = fst (animateEntry (Fin c2) (current ?t = Some r) (heap ?t r))"
      by (simp add: doAnimationFrame_heap [OF dt])
    with animateEntry_monotone [OF it assms(4) sp', of "current ?t = Some r"] h1
    show ?thesis by simp
  next
    case False
    then have h2: "heap ?s2 r = heap ?t r"
      by (simp add: doAnimationFrame_heap [OF dt])
    from animateEntry_finite [OF it, of c1 "current ?s = Some r"]
    have "js_le (existence ?c1) (existence ?c1)" by auto
    with sp' h1 h2 show ?thesis by (simp add: same_progress_def)
  qed
qed

theorem existence_monotone_witness:
  "well_timed None [NgOnInit (Some True), SetAnimateBy (Some (1::nat)), Frame 0]
   \<and> 0 \<in> set (stack (run [NgOnInit (Some True), SetAnimateBy (Some (1::nat)), Frame 0]))
   \<and> \<not> is_Frame (SetAnimateBy (Some (2::nat))) \<and> (300::real) \<le> 500
   \<and> state (heap (doAnimationFrame (Fin 300)
        (run [NgOnInit (Some True), SetAnimateBy (Some (1::nat)), Frame 0])) 0) = Entering
   \<and> state (heap (fold step [SetAnimateBy (Some 2)] (doAnimationFrame (Fin 300)
        (run [NgOnInit (Some True), SetAnimateBy (Some (1::nat)), Frame 0]))) 0) = Entering
   \<and> existence (heap (doAnimationFrame (Fin 300)
        (run [NgOnInit (Some True), SetAnimateBy (Some (1::nat)), Frame 0])) 0) = Fin (3 / 10)
   \<and> existence (heap (doAnimationFrame (Fin 500) (fold step [SetAnimateBy (Some 2)]
        (doAnimationFrame (Fin 300)
          (run [NgOnInit (Some True), SetAnimateBy (Some (1::nat)), Frame 0])))) 0) = Fin (1 / 2)
   \<and> js_le (existence (heap (doAnimationFrame (Fin 300)
        (run [NgOnInit (Some True), SetAnimateBy (Some (1::nat)), Frame 0])) 0))
       (existence (heap (doAnimationFrame (Fin 500) (fold step [SetAnimateBy (Some 2)]
        (doAnimationFrame (Fin 300)
          (run [NgOnInit (Some True), SetAnimateBy (Some (1::nat)), Frame 0])))) 0))"
  using existence_monotone [of "[NgOnInit (Some True), SetAnimateBy (Some (1::nat)), Frame 0]" 0
      "[SetAnimateBy (Some 2)]" 300 500]
  by (simp add: exec)

end
